theory Spec2Isabelle
  imports Main "HOL-Library.AList" "HOL-Library.Sublist"
begin

section \<open>The elasticsearch query builder of \<^verbatim>\<open>src/index.ts\<close>\<close>

text \<open>
  The class \<^verbatim>\<open>QueryBuilder\<close> holds one reference, \<^verbatim>\<open>queryObject\<close>, to a JavaScript
  object, the query document. Every method either appends to an array inside the
  document, assigns one of its properties, or reads it.

  The embedding has two layers.
  \<^item> A document is a tree of JavaScript values: \<open>json\<close>. Objects keep their own
    properties as an association list in property order, because
    \<^verbatim>\<open>JSON.stringify\<close> prints them in that order.
  \<^item> The builder refers to its document through an address in a store (\<open>heap\<close>),
    as \<^verbatim>\<open>this.queryObject\<close> refers to an object: \<^verbatim>\<open>build()\<close> hands that reference
    out, and what a caller sees through it afterwards is what the store holds there.
    Sharing is modelled for the document as a whole; the values below it form a tree,
    as they do in every document the constructor creates and in every supplied
    document in which no object or array is reached along two paths.

  A supplied document can also hold one array in two places. For such documents the
  methods are embedded a second time, over a store in which every object and every
  array is a cell of its own and a property holds a primitive value or a reference
  (the last subsection of the definitions). What a call leaves unchanged is stated
  there.

  A failing property access throws \<^verbatim>\<open>TypeError\<close>; the methods return
  \<open>error + (QueryBuilder \<times> heap)\<close> with \<open>Inl\<close> for the throw. A \<^verbatim>\<open>number\<close> is
  modelled by \<open>int\<close>; the texts of \<open>stringify\<close> are those of the program for the
  safe integers, of absolute value at most \<open>2 ^ 53 - 1\<close>, which a double holds
  exactly and prints in plain decimal, and the statements about texts are restricted
  to them (\<open>json_data\<close>, \<open>safe_call\<close>). A JavaScript string is a \<open>string\<close>, one
  \<open>char\<close> per code unit, for the code units below 256. Objects are plain data
  objects: extensible, with writable data properties and the built-in prototypes.
\<close>

subsection \<open>JavaScript values\<close>

type_synonym addr = nat

datatype error = TypeError

datatype SortDirection = desc | asc

text \<open>
  \<open>JArr xs ps\<close> is an array with the elements \<open>xs\<close>; an array is an object too and
  can carry named own properties \<open>ps\<close> (an assignment \<^verbatim>\<open>a.k = v\<close> to an array
  succeeds). The value \<^verbatim>\<open>undefined\<close> is never stored: a missing property reads
  as \<open>None\<close>.
  The property names of a JavaScript object are distinct; no statement below needs
  this of a list \<open>ps\<close>.
\<close>

datatype json =
    JNull
  | JBool bool
  | JNum int
  | JStr string
  | JArr "json list" "(string \<times> json) list"
  | JObj "(string \<times> json) list"

text \<open>
  \<^verbatim>\<open>v.push(x)\<close>: appends to an array, where \<^verbatim>\<open>push\<close> is the method of
  \<^verbatim>\<open>Array.prototype\<close>. An own property \<^verbatim>\<open>push\<close> of the array shadows that
  method; a value of this type is no function, so the call throws. On \<^verbatim>\<open>null\<close>
  the property read throws; on any other value \<^verbatim>\<open>push\<close> is not a function and
  the call throws.
\<close>

fun js_push :: "json \<Rightarrow> json \<Rightarrow> error + json" where
  "js_push x (JArr xs ps) =
     (if map_of ps ''push'' = None then Inr (JArr (xs @ [x]) ps) else Inl TypeError)"
| "js_push x _ = Inl TypeError"

text \<open>
  \<^verbatim>\<open>v.k = x\<close> in strict code (a class body is strict): an object or an array gets
  or replaces its own property \<open>k\<close>, a replaced property keeps its place and a new
  one goes last; \<^verbatim>\<open>null\<close> and the primitive values throw.
\<close>

fun js_set :: "string \<Rightarrow> json \<Rightarrow> json \<Rightarrow> error + json" where
  "js_set k x (JObj ps) = Inr (JObj (AList.update k x ps))"
| "js_set k x (JArr xs ps) = Inr (JArr xs (AList.update k x ps))"
| "js_set k x _ = Inl TypeError"

text \<open>
  \<open>update_at [k1, ..., kn] f v\<close> is the effect of \<^verbatim>\<open>v.k1. ... .kn\<close> followed by the
  operation \<open>f\<close> on the value found there, seen from \<open>v\<close>: the tree with the value
  at that path replaced by the result of \<open>f\<close>. Reading a property of \<^verbatim>\<open>null\<close>
  throws. A property that is missing (also on a boolean, a number or a string) reads
  as \<^verbatim>\<open>undefined\<close>, and whatever comes next, a further property read, \<^verbatim>\<open>push\<close>
  or an assignment, throws on \<^verbatim>\<open>undefined\<close>. The names this program reads
  (\<^verbatim>\<open>query\<close>, \<^verbatim>\<open>bool\<close>, \<^verbatim>\<open>should\<close>, \<^verbatim>\<open>must\<close>, \<^verbatim>\<open>sort\<close>) are no array
  indices; the one a built-in prototype has, an array's \<^verbatim>\<open>sort\<close>, is a function
  there, whose \<^verbatim>\<open>push\<close> is \<^verbatim>\<open>undefined\<close>, so that call throws as well.
\<close>

fun update_at :: "string list \<Rightarrow> (json \<Rightarrow> error + json) \<Rightarrow> json \<Rightarrow> error + json" where
  "update_at [] f v = f v"
| "update_at (k # ks) f (JObj ps) =
     (case map_of ps k of
        None \<Rightarrow> Inl TypeError
      | Some c \<Rightarrow>
          (case update_at ks f c of
             Inl e \<Rightarrow> Inl e
           | Inr c' \<Rightarrow> Inr (JObj (AList.update k c' ps))))"
| "update_at (k # ks) f (JArr xs ps) =
     (case map_of ps k of
        None \<Rightarrow> Inl TypeError
      | Some c \<Rightarrow>
          (case update_at ks f c of
             Inl e \<Rightarrow> Inl e
           | Inr c' \<Rightarrow> Inr (JArr xs (AList.update k c' ps))))"
| "update_at (k # ks) f _ = Inl TypeError"

subsection \<open>\<^verbatim>\<open>JSON.stringify\<close>\<close>

definition hex_digit :: "nat \<Rightarrow> char" where
  "hex_digit d = (if d < 10 then char_of (48 + d) else char_of (87 + d))"

text \<open>
  The escapes of \<^verbatim>\<open>QuoteJSONString\<close>: the double quote (0x22), the backslash
  (0x5C), the five short escapes, and \<^verbatim>\<open>\u00xx\<close> for the other code units below
  0x20.
\<close>

definition quote_char :: "char \<Rightarrow> string" where
  "quote_char c =
     (if c = CHR 0x22 then [CHR 0x5C, CHR 0x22]
      else if c = CHR 0x5C then [CHR 0x5C, CHR 0x5C]
      else if c = CHR 0x08 then [CHR 0x5C, CHR ''b'']
      else if c = CHR 0x0C then [CHR 0x5C, CHR ''f'']
      else if c = CHR 0x0A then [CHR 0x5C, CHR ''n'']
      else if c = CHR 0x0D then [CHR 0x5C, CHR ''r'']
      else if c = CHR 0x09 then [CHR 0x5C, CHR ''t'']
      else if (of_char c :: nat) < 32 then
        [CHR 0x5C, CHR ''u'', CHR ''0'', CHR ''0'',
         hex_digit (of_char c div 16), hex_digit (of_char c mod 16)]
      else [c])"

definition quote :: "string \<Rightarrow> string" where
  "quote s = CHR 0x22 # concat (map quote_char s) @ [CHR 0x22]"

fun show_nat :: "nat \<Rightarrow> string" where
  "show_nat n =
     (if n < 10 then [char_of (48 + n)]
      else show_nat (n div 10) @ [char_of (48 + n mod 10)])"

declare show_nat.simps [simp del]

text \<open>
  \<^verbatim>\<open>Number::toString\<close> of an integer: its decimal digits, after a minus sign when
  it is negative. The program prints an integer so when its absolute value is below
  \<open>10 ^ 21\<close>, and in exponent notation from there on; \<open>json_data\<close> below keeps the
  numbers of a document within the safe integers.
\<close>

definition show_int :: "int \<Rightarrow> string" where
  "show_int i = (if i < 0 then ''-'' @ show_nat (nat (- i)) else show_nat (nat i))"

fun join :: "string list \<Rightarrow> string" where
  "join [] = []"
| "join [s] = s"
| "join (s # t # ss) = s @ '','' @ join (t # ss)"

text \<open>
  \<^verbatim>\<open>JSON.stringify(v)\<close> with no replacer and no indentation: no white space, the
  properties of an object in their own order, the named properties of an array left
  out.
\<close>

fun stringify :: "json \<Rightarrow> string" where
  "stringify JNull = ''null''"
| "stringify (JBool b) = (if b then ''true'' else ''false'')"
| "stringify (JNum n) = show_int n"
| "stringify (JStr s) = quote s"
| "stringify (JArr xs ps) = ''['' @ join (map stringify xs) @ '']''"
| "stringify (JObj ps) =
     ''{'' @ join (map (\<lambda>(k, v). quote k @ '':'' @ stringify v) ps) @ ''}''"

subsection \<open>The store and the builder\<close>

record heap =
  cells :: "addr \<Rightarrow> json"
  fresh :: addr

definition alloc :: "json \<Rightarrow> heap \<Rightarrow> addr \<times> heap" where
  "alloc v h = (fresh h, h\<lparr>cells := (cells h)(fresh h := v), fresh := Suc (fresh h)\<rparr>)"

record QueryBuilder =
  queryObject :: addr

text \<open>
  The document of \<^verbatim>\<open>new QueryBuilder()\<close>:
  \<^verbatim>\<open>{ query: { bool: { should: [], must: [] } }, sort: [] }\<close>.
\<close>

definition default_document :: json where
  "default_document =
     JObj [(''query'', JObj [(''bool'', JObj [(''should'', JArr [] []), (''must'', JArr [] [])])]),
           (''sort'', JArr [] [])]"

text \<open>
  The truthiness test of \<^verbatim>\<open>query ? query : {...}\<close>: \<^verbatim>\<open>null\<close>, \<^verbatim>\<open>false\<close>,
  \<^verbatim>\<open>0\<close> and the empty string are falsy, every object and array is truthy.
\<close>

fun truthy :: "json \<Rightarrow> bool" where
  "truthy JNull = False"
| "truthy (JBool b) = b"
| "truthy (JNum n) = (n \<noteq> 0)"
| "truthy (JStr s) = (s \<noteq> [])"
| "truthy (JArr xs ps) = True"
| "truthy (JObj ps) = True"

text \<open>
  \<^verbatim>\<open>constructor(query?: QueryObject)\<close>: \<^verbatim>\<open>this.queryObject = query ? query : {...}\<close>.
  The argument is \<^verbatim>\<open>undefined\<close> (\<open>None\<close>) or a value, given by the address of the
  cell that holds it: the reference of an object, or a cell of its own for a
  primitive value. A truthy argument is kept as it is; for \<^verbatim>\<open>undefined\<close> and for
  a falsy value the object literal is allocated.
\<close>

definition constructor :: "addr option \<Rightarrow> heap \<Rightarrow> QueryBuilder \<times> heap" where
  "constructor query h =
     (case query of
        Some q \<Rightarrow>
          (if truthy (cells h q) then (\<lparr>queryObject = q\<rparr>, h)
           else (let (a, h') = alloc default_document h in (\<lparr>queryObject = a\<rparr>, h')))
      | None \<Rightarrow> (let (a, h') = alloc default_document h in (\<lparr>queryObject = a\<rparr>, h')))"

text \<open>\<^verbatim>\<open>build()\<close>: \<^verbatim>\<open>return this.queryObject\<close>, the reference; the store is untouched.\<close>

definition build :: "QueryBuilder \<Rightarrow> heap \<Rightarrow> addr \<times> heap" where
  "build this h = (queryObject this, h)"

text \<open>
  A method that changes the object behind \<^verbatim>\<open>this.queryObject\<close> in place and
  returns \<^verbatim>\<open>this\<close>. When the change throws, nothing has been written. The
  document is one value of the store, so a write inside it reaches no other cell and
  no other place of the document: this is the program on documents without sharing
  below the document. The object graph at the end of the definitions has the writes
  of the program on every document.
\<close>

definition mutate :: "(json \<Rightarrow> error + json) \<Rightarrow> QueryBuilder \<Rightarrow> heap \<Rightarrow> error + QueryBuilder \<times> heap" where
  "mutate f this h =
     (case f (cells h (queryObject this)) of
        Inl e \<Rightarrow> Inl e
      | Inr d \<Rightarrow> Inr (this, h\<lparr>cells := (cells h)(queryObject this := d)\<rparr>))"

definition shouldPrefix :: "string \<Rightarrow> string \<Rightarrow> QueryBuilder \<Rightarrow> heap \<Rightarrow> error + QueryBuilder \<times> heap" where
  "shouldPrefix key val =
     mutate (update_at [''query'', ''bool'', ''should'']
       (js_push (JObj [(''prefix'', JObj [(key, JStr val)])])))"

definition shouldTerm :: "string \<Rightarrow> string \<Rightarrow> QueryBuilder \<Rightarrow> heap \<Rightarrow> error + QueryBuilder \<times> heap" where
  "shouldTerm key val =
     mutate (update_at [''query'', ''bool'', ''should'']
       (js_push (JObj [(''term'', JObj [(key, JStr val)])])))"

definition shouldWildcard :: "string \<Rightarrow> string \<Rightarrow> QueryBuilder \<Rightarrow> heap \<Rightarrow> error + QueryBuilder \<times> heap" where
  "shouldWildcard key val =
     mutate (update_at [''query'', ''bool'', ''should'']
       (js_push (JObj [(''wildcard'', JObj [(key, JStr (''*'' @ val @ ''*''))])])))"

definition shouldMatch :: "string \<Rightarrow> string \<Rightarrow> QueryBuilder \<Rightarrow> heap \<Rightarrow> error + QueryBuilder \<times> heap" where
  "shouldMatch key val =
     mutate (update_at [''query'', ''bool'', ''should'']
       (js_push (JObj [(''match'', JObj [(key, JStr val)])])))"

definition mustWildcard :: "string \<Rightarrow> string \<Rightarrow> QueryBuilder \<Rightarrow> heap \<Rightarrow> error + QueryBuilder \<times> heap" where
  "mustWildcard key val =
     mutate (update_at [''query'', ''bool'', ''must'']
       (js_push (JObj [(''wildcard'', JObj [(key, JStr (''*'' @ val @ ''*''))])])))"

definition mustMatch :: "string \<Rightarrow> string \<Rightarrow> QueryBuilder \<Rightarrow> heap \<Rightarrow> error + QueryBuilder \<times> heap" where
  "mustMatch key val =
     mutate (update_at [''query'', ''bool'', ''must'']
       (js_push (JObj [(''match'', JObj [(key, JStr val)])])))"

text \<open>
  \<^verbatim>\<open>mustShouldMatch(terms)\<close>: \<^verbatim>\<open>terms.forEach\<close> pushes one match clause per
  \<^verbatim>\<open>{key, value}\<close> pair onto the fresh list of \<^verbatim>\<open>shouldQuery\<close>, which is then
  pushed onto \<^verbatim>\<open>must\<close>.
\<close>

definition mustShouldMatch :: "(string \<times> string) list \<Rightarrow> QueryBuilder \<Rightarrow> heap \<Rightarrow> error + QueryBuilder \<times> heap" where
  "mustShouldMatch terms =
     (let shouldQuery =
        JObj [(''bool'', JObj [(''should'',
          JArr (map (\<lambda>(key, val). JObj [(''match'', JObj [(key, JStr val)])]) terms) [])])]
      in mutate (update_at [''query'', ''bool'', ''must''] (js_push shouldQuery)))"

definition mustTerm :: "string \<Rightarrow> string \<Rightarrow> QueryBuilder \<Rightarrow> heap \<Rightarrow> error + QueryBuilder \<times> heap" where
  "mustTerm key val =
     mutate (update_at [''query'', ''bool'', ''must'']
       (js_push (JObj [(''term'', JObj [(key, JStr val)])])))"

definition ofType :: "string \<Rightarrow> QueryBuilder \<Rightarrow> heap \<Rightarrow> error + QueryBuilder \<times> heap" where
  "ofType type =
     mutate (update_at [''query'', ''bool'', ''must'']
       (js_push (JObj [(''term'', JObj [(''type'', JStr type)])])))"

definition mustPrefix :: "string \<Rightarrow> string \<Rightarrow> QueryBuilder \<Rightarrow> heap \<Rightarrow> error + QueryBuilder \<times> heap" where
  "mustPrefix key val =
     mutate (update_at [''query'', ''bool'', ''must'']
       (js_push (JObj [(''prefix'', JObj [(key, JStr val)])])))"

definition minimumShouldMatch :: "int \<Rightarrow> QueryBuilder \<Rightarrow> heap \<Rightarrow> error + QueryBuilder \<times> heap" where
  "minimumShouldMatch count =
     mutate (update_at [''query'', ''bool''] (js_set ''minimum_should_match'' (JNum count)))"

fun direction_string :: "SortDirection \<Rightarrow> string" where
  "direction_string desc = ''desc''"
| "direction_string asc = ''asc''"

text \<open>
  \<^verbatim>\<open>sort(attribute, direction = 'desc')\<close>; \<^verbatim>\<open>size(size = 20)\<close>;
  \<^verbatim>\<open>from(from = 0)\<close>: an omitted argument is \<open>None\<close> and takes the default.
\<close>

definition sort_by :: "string \<Rightarrow> SortDirection option \<Rightarrow> QueryBuilder \<Rightarrow> heap \<Rightarrow> error + QueryBuilder \<times> heap" where
  "sort_by attribute direction =
     (let dir = (case direction of None \<Rightarrow> desc | Some d \<Rightarrow> d)
      in mutate (update_at [''sort'']
           (js_push (JObj [(attribute, JObj [(''order'', JStr (direction_string dir))])]))))"

definition size_of :: "int option \<Rightarrow> QueryBuilder \<Rightarrow> heap \<Rightarrow> error + QueryBuilder \<times> heap" where
  "size_of sz =
     (let n = (case sz of None \<Rightarrow> 20 | Some s \<Rightarrow> s)
      in mutate (js_set ''size'' (JNum n)))"

definition from_offset :: "int option \<Rightarrow> QueryBuilder \<Rightarrow> heap \<Rightarrow> error + QueryBuilder \<times> heap" where
  "from_offset frm =
     (let n = (case frm of None \<Rightarrow> 0 | Some f \<Rightarrow> f)
      in mutate (js_set ''from'' (JNum n)))"

text \<open>\<^verbatim>\<open>toString = () => JSON.stringify(this.queryObject)\<close>.\<close>

definition toString :: "QueryBuilder \<Rightarrow> heap \<Rightarrow> string" where
  "toString this h = stringify (cells h (queryObject this))"

subsection \<open>Call chains\<close>

text \<open>
  One constructor per mutating method, with its arguments, and the fluent chain
  \<^verbatim>\<open>b.m1(...).m2(...)\<close>: each method returns \<^verbatim>\<open>this\<close>, the next one is called
  on it, and a throw ends the chain.
\<close>

datatype call =
    ShouldPrefix string string
  | ShouldTerm string string
  | ShouldWildcard string string
  | ShouldMatch string string
  | MustWildcard string string
  | MustMatch string string
  | MustShouldMatch "(string \<times> string) list"
  | MustTerm string string
  | OfType string
  | MustPrefix string string
  | MinimumShouldMatch int
  | Sort string "SortDirection option"
  | Size "int option"
  | From "int option"

fun invoke :: "call \<Rightarrow> QueryBuilder \<Rightarrow> heap \<Rightarrow> error + QueryBuilder \<times> heap" where
  "invoke (ShouldPrefix k v) = shouldPrefix k v"
| "invoke (ShouldTerm k v) = shouldTerm k v"
| "invoke (ShouldWildcard k v) = shouldWildcard k v"
| "invoke (ShouldMatch k v) = shouldMatch k v"
| "invoke (MustWildcard k v) = mustWildcard k v"
| "invoke (MustMatch k v) = mustMatch k v"
| "invoke (MustShouldMatch ts) = mustShouldMatch ts"
| "invoke (MustTerm k v) = mustTerm k v"
| "invoke (OfType t) = ofType t"
| "invoke (MustPrefix k v) = mustPrefix k v"
| "invoke (MinimumShouldMatch n) = minimumShouldMatch n"
| "invoke (Sort a d) = sort_by a d"
| "invoke (Size n) = size_of n"
| "invoke (From n) = from_offset n"

fun chain :: "call list \<Rightarrow> QueryBuilder \<Rightarrow> heap \<Rightarrow> error + QueryBuilder \<times> heap" where
  "chain [] this h = Inr (this, h)"
| "chain (c # cs) this h =
     (case invoke c this h of
        Inl e \<Rightarrow> Inl e
      | Inr (this', h') \<Rightarrow> chain cs this' h')"

subsection \<open>Reading a document\<close>

text \<open>
  \<open>at [k1, ..., kn] v\<close> is the value of \<^verbatim>\<open>v.k1. ... .kn\<close> along own properties;
  \<open>None\<close> when some property on the way is missing.
\<close>

fun at :: "string list \<Rightarrow> json \<Rightarrow> json option" where
  "at [] v = Some v"
| "at (k # ks) (JObj ps) = (case map_of ps k of None \<Rightarrow> None | Some c \<Rightarrow> at ks c)"
| "at (k # ks) (JArr xs ps) = (case map_of ps k of None \<Rightarrow> None | Some c \<Rightarrow> at ks c)"
| "at (k # ks) _ = None"

text \<open>
  The elements of the list at a path: of an array with the \<^verbatim>\<open>push\<close> of
  \<^verbatim>\<open>Array.prototype\<close>. \<open>None\<close> when there is no such array there.
\<close>

definition list_at :: "string list \<Rightarrow> json \<Rightarrow> json list option" where
  "list_at p v =
     (case at p v of
        Some (JArr xs ps) \<Rightarrow> (if map_of ps ''push'' = None then Some xs else None)
      | _ \<Rightarrow> None)"

definition should_list :: "json \<Rightarrow> json list option" where
  "should_list = list_at [''query'', ''bool'', ''should'']"

definition must_list :: "json \<Rightarrow> json list option" where
  "must_list = list_at [''query'', ''bool'', ''must'']"

definition sort_list :: "json \<Rightarrow> json list option" where
  "sort_list = list_at [''sort'']"

text \<open>The document of a builder in a store.\<close>

definition document :: "QueryBuilder \<Rightarrow> heap \<Rightarrow> json" where
  "document this h = cells h (queryObject this)"

text \<open>
  The standard shape: \<^verbatim>\<open>query.bool.should\<close>, \<^verbatim>\<open>query.bool.must\<close> and \<^verbatim>\<open>sort\<close>
  are arrays.
\<close>

definition standard :: "json \<Rightarrow> bool" where
  "standard d \<longleftrightarrow> should_list d \<noteq> None \<and> must_list d \<noteq> None \<and> sort_list d \<noteq> None"

definition empty_heap :: heap where
  "empty_heap = \<lparr>cells = (\<lambda>_. JNull), fresh = 0\<rparr>"

subsection \<open>The specification's reading of a call\<close>

text \<open>
  The specification gives every mutating call one designated field of the document
  and one value: the clause or sort entry it appends, or the number it assigns. The
  following definitions are written from the specification's words (its sections 3,
  4.1 and 6), to be compared with the methods above.
\<close>

datatype field = F_should | F_must | F_minimum_should_match | F_sort | F_size | F_from

fun path_of :: "field \<Rightarrow> string list" where
  "path_of F_should = [''query'', ''bool'', ''should'']"
| "path_of F_must = [''query'', ''bool'', ''must'']"
| "path_of F_minimum_should_match = [''query'', ''bool'', ''minimum_should_match'']"
| "path_of F_sort = [''sort'']"
| "path_of F_size = [''size'']"
| "path_of F_from = [''from'']"

fun is_list_field :: "field \<Rightarrow> bool" where
  "is_list_field F_should = True"
| "is_list_field F_must = True"
| "is_list_field F_sort = True"
| "is_list_field _ = False"

fun field_of :: "call \<Rightarrow> field" where
  "field_of (ShouldPrefix k v) = F_should"
| "field_of (ShouldTerm k v) = F_should"
| "field_of (ShouldWildcard k v) = F_should"
| "field_of (ShouldMatch k v) = F_should"
| "field_of (MustWildcard k v) = F_must"
| "field_of (MustMatch k v) = F_must"
| "field_of (MustShouldMatch ts) = F_must"
| "field_of (MustTerm k v) = F_must"
| "field_of (OfType t) = F_must"
| "field_of (MustPrefix k v) = F_must"
| "field_of (MinimumShouldMatch n) = F_minimum_should_match"
| "field_of (Sort a d) = F_sort"
| "field_of (Size n) = F_size"
| "field_of (From n) = F_from"

text \<open>A clause \<^verbatim>\<open>{kind: {key: value}}\<close>.\<close>

definition clause :: "string \<Rightarrow> string \<Rightarrow> string \<Rightarrow> json" where
  "clause kind key val = JObj [(kind, JObj [(key, JStr val)])]"

fun payload :: "call \<Rightarrow> json" where
  "payload (ShouldPrefix k v) = clause ''prefix'' k v"
| "payload (ShouldTerm k v) = clause ''term'' k v"
| "payload (ShouldWildcard k v) = clause ''wildcard'' k (''*'' @ v @ ''*'')"
| "payload (ShouldMatch k v) = clause ''match'' k v"
| "payload (MustWildcard k v) = clause ''wildcard'' k (''*'' @ v @ ''*'')"
| "payload (MustMatch k v) = clause ''match'' k v"
| "payload (MustShouldMatch ts) =
     JObj [(''bool'', JObj [(''should'', JArr (map (\<lambda>(k, v). clause ''match'' k v) ts) [])])]"
| "payload (MustTerm k v) = clause ''term'' k v"
| "payload (OfType t) = clause ''term'' ''type'' t"
| "payload (MustPrefix k v) = clause ''prefix'' k v"
| "payload (MinimumShouldMatch n) = JNum n"
| "payload (Sort a None) = JObj [(a, JObj [(''order'', JStr ''desc'')])]"
| "payload (Sort a (Some desc)) = JObj [(a, JObj [(''order'', JStr ''desc'')])]"
| "payload (Sort a (Some asc)) = JObj [(a, JObj [(''order'', JStr ''asc'')])]"
| "payload (Size None) = JNum 20"
| "payload (Size (Some n)) = JNum n"
| "payload (From None) = JNum 0"
| "payload (From (Some n)) = JNum n"

text \<open>
  The effect of a call on a document, as the specification states it: append the
  value to the designated list, or assign it to the designated field.
\<close>

definition effect :: "call \<Rightarrow> json \<Rightarrow> error + json" where
  "effect c =
     (let p = path_of (field_of c) in
      if is_list_field (field_of c) then update_at p (js_push (payload c))
      else update_at (butlast p) (js_set (last p) (payload c)))"

text \<open>The values the calls of a chain give to one field, in call order.\<close>

definition entries :: "field \<Rightarrow> call list \<Rightarrow> json list" where
  "entries f cs = map payload (filter (\<lambda>c. field_of c = f) cs)"

subsection \<open>Shapes of documents\<close>

text \<open>
  An object in the sense of JavaScript: a value that can take a property.
\<close>

fun is_object :: "json \<Rightarrow> bool" where
  "is_object (JObj ps) = True"
| "is_object (JArr xs ps) = True"
| "is_object _ = False"

text \<open>
  What a call dereferences: a call that appends needs the array at its path; a
  call that assigns needs the object that holds its field (\<^verbatim>\<open>query.bool\<close> for
  \<^verbatim>\<open>minimum_should_match\<close>, the document itself for \<^verbatim>\<open>size\<close> and \<^verbatim>\<open>from\<close>).
\<close>

definition structure_present :: "call \<Rightarrow> json \<Rightarrow> bool" where
  "structure_present c d =
     (if is_list_field (field_of c) then list_at (path_of (field_of c)) d \<noteq> None
      else (case at (butlast (path_of (field_of c))) d of
              Some v \<Rightarrow> is_object v
            | None \<Rightarrow> False))"

text \<open>
  A path that runs through plain objects only, so that \<^verbatim>\<open>JSON.stringify\<close> prints
  the value at its end; \<open>printed\<close> says so of the three lists.
\<close>

fun plain_at :: "string list \<Rightarrow> json \<Rightarrow> bool" where
  "plain_at [] v = True"
| "plain_at (k # ks) (JObj ps) = (case map_of ps k of None \<Rightarrow> False | Some c \<Rightarrow> plain_at ks c)"
| "plain_at (k # ks) _ = False"

definition printed :: "json \<Rightarrow> bool" where
  "printed d \<longleftrightarrow> plain_at [''query'', ''bool'', ''should''] d
     \<and> plain_at [''query'', ''bool'', ''must''] d \<and> plain_at [''sort''] d"

subsection \<open>Documents that are JSON data\<close>

text \<open>
  The documents whose text is that of the program and tells the whole document: the
  numbers are safe integers, and no array carries a named property
  (\<^verbatim>\<open>JSON.stringify\<close> leaves those out, so two documents that differ in one have
  the same text).
\<close>

fun json_data :: "json \<Rightarrow> bool" where
  "json_data (JNum n) = (- 9007199254740991 \<le> n \<and> n \<le> 9007199254740991)"
| "json_data (JArr xs ps) = (ps = [] \<and> list_all json_data xs)"
| "json_data (JObj ps) = list_all (\<lambda>p. json_data (snd p)) ps"
| "json_data _ = True"

text \<open>A call whose number, where it takes one, is a safe integer.\<close>

fun safe_call :: "call \<Rightarrow> bool" where
  "safe_call (MinimumShouldMatch n) = json_data (JNum n)"
| "safe_call (Size (Some n)) = json_data (JNum n)"
| "safe_call (From (Some n)) = json_data (JNum n)"
| "safe_call _ = True"

subsection \<open>Reading a JSON text\<close>

text \<open>
  The specification calls the result of \<^verbatim>\<open>toString\<close> the JSON text of the
  document. What a JSON text is, and which value it stands for, is fixed by the JSON
  grammar (ECMA-404); \<open>parse_json\<close> reads a text by that grammar from the left
  and gives its value. It reads the texts without white space whose numbers are
  integers and whose strings hold code units below 256, and refuses every other text
  with \<open>None\<close>. It is written from the grammar, not from \<open>stringify\<close>.

  A number is an optional minus sign and decimal digits, without a leading zero
  unless it is the one digit \<^verbatim>\<open>0\<close>; \<^verbatim>\<open>-0\<close>, which is no integer, is refused, and
  a fraction or an exponent is left unread, so that the text is refused by what
  follows the number.
\<close>

definition is_digit :: "char \<Rightarrow> bool" where
  "is_digit c \<longleftrightarrow> 48 \<le> (of_char c :: nat) \<and> (of_char c :: nat) \<le> 57"

definition read_nat :: "string \<Rightarrow> nat" where
  "read_nat s = foldl (\<lambda>a c. 10 * a + (of_char c - 48)) 0 s"

definition read_digits :: "string \<Rightarrow> (nat \<times> string) option" where
  "read_digits s =
     (let ds = takeWhile is_digit s in
      if ds = [] \<or> (hd ds = CHR ''0'' \<and> ds \<noteq> ''0'') then None
      else Some (read_nat ds, dropWhile is_digit s))"

definition read_number :: "string \<Rightarrow> (int \<times> string) option" where
  "read_number s =
     (case s of
        [] \<Rightarrow> None
      | c # cs \<Rightarrow>
          (if c = CHR ''-'' then
             (case read_digits cs of
                None \<Rightarrow> None
              | Some (n, r) \<Rightarrow> if n = 0 then None else Some (- int n, r))
           else
             (case read_digits s of
                None \<Rightarrow> None
              | Some (n, r) \<Rightarrow> Some (int n, r))))"

text \<open>
  A string stands between quotation marks. Inside, a code unit from 0x20 on other
  than the quotation mark and the backslash stands for itself; a backslash starts
  an escape: a quotation mark, a backslash, a solidus, one of the letters
  \<^verbatim>\<open>b f n r t\<close>, or \<^verbatim>\<open>u\<close> and four hexadecimal digits of either case, here
  \<^verbatim>\<open>00\<close> and two more. \<open>read_string\<close> reads from
  behind the opening quotation mark up to the closing one and returns the string and
  the rest of the text.
\<close>

definition hex_value :: "char \<Rightarrow> nat option" where
  "hex_value c =
     (let n = (of_char c :: nat) in
      if 48 \<le> n \<and> n \<le> 57 then Some (n - 48)
      else if 97 \<le> n \<and> n \<le> 102 then Some (n - 87)
      else if 65 \<le> n \<and> n \<le> 70 then Some (n - 55)
      else None)"

definition unescape :: "char \<Rightarrow> char option" where
  "unescape e =
     (if e = CHR 0x22 then Some (CHR 0x22)
      else if e = CHR 0x5C then Some (CHR 0x5C)
      else if e = CHR ''/'' then Some (CHR ''/'')
      else if e = CHR ''b'' then Some (CHR 0x08)
      else if e = CHR ''f'' then Some (CHR 0x0C)
      else if e = CHR ''n'' then Some (CHR 0x0A)
      else if e = CHR ''r'' then Some (CHR 0x0D)
      else if e = CHR ''t'' then Some (CHR 0x09)
      else None)"

fun read_string :: "string \<Rightarrow> (string \<times> string) option" where
  "read_string [] = None"
| "read_string (c # cs) =
     (if c = CHR 0x22 then Some ([], cs)
      else if c = CHR 0x5C then
        (case cs of
           [] \<Rightarrow> None
         | e # es \<Rightarrow>
             (if e = CHR ''u'' then
                (case map hex_value (take 4 es) of
                   [Some 0, Some 0, Some a, Some b] \<Rightarrow>
                     (case read_string (drop 4 es) of
                        None \<Rightarrow> None
                      | Some (s, r) \<Rightarrow> Some (char_of (16 * a + b) # s, r))
                 | _ \<Rightarrow> None)
              else
                (case unescape e of
                   None \<Rightarrow> None
                 | Some d \<Rightarrow>
                     (case read_string es of
                        None \<Rightarrow> None
                      | Some (s, r) \<Rightarrow> Some (d # s, r)))))
      else if (of_char c :: nat) < 32 then None
      else
        (case read_string cs of
           None \<Rightarrow> None
         | Some (s, r) \<Rightarrow> Some (c # s, r)))"

text \<open>
  A value is \<^verbatim>\<open>null\<close>, \<^verbatim>\<open>true\<close>, \<^verbatim>\<open>false\<close>, a string, an array
  \<^verbatim>\<open>[v,...,v]\<close>, an object \<^verbatim>\<open>{"k":v,...,"k":v}\<close> or a number. An object is read as
  the list of its members in the order of the text. The first argument bounds the
  number of nested calls; \<open>parse_json\<close> gives more than the text has characters,
  and wants the whole text read.
\<close>

fun parse_value :: "nat \<Rightarrow> string \<Rightarrow> (json \<times> string) option"
  and parse_elements :: "nat \<Rightarrow> string \<Rightarrow> (json list \<times> string) option"
  and parse_members :: "nat \<Rightarrow> string \<Rightarrow> ((string \<times> json) list \<times> string) option"
where
  "parse_value 0 s = None"
| "parse_value (Suc n) [] = None"
| "parse_value (Suc n) (c # cs) =
     (if c = CHR ''n'' then (if take 3 cs = ''ull'' then Some (JNull, drop 3 cs) else None)
      else if c = CHR ''t'' then (if take 3 cs = ''rue'' then Some (JBool True, drop 3 cs) else None)
      else if c = CHR ''f'' then (if take 4 cs = ''alse'' then Some (JBool False, drop 4 cs) else None)
      else if c = CHR 0x22 then
        (case read_string cs of None \<Rightarrow> None | Some (s, r) \<Rightarrow> Some (JStr s, r))
      else if c = CHR ''['' then
        (if take 1 cs = '']'' then Some (JArr [] [], drop 1 cs)
         else (case parse_elements n cs of None \<Rightarrow> None | Some (xs, r) \<Rightarrow> Some (JArr xs [], r)))
      else if c = CHR ''{'' then
        (if take 1 cs = ''}'' then Some (JObj [], drop 1 cs)
         else (case parse_members n cs of None \<Rightarrow> None | Some (ps, r) \<Rightarrow> Some (JObj ps, r)))
      else (case read_number (c # cs) of None \<Rightarrow> None | Some (i, r) \<Rightarrow> Some (JNum i, r)))"
| "parse_elements 0 s = None"
| "parse_elements (Suc n) s =
     (case parse_value n s of
        None \<Rightarrow> None
      | Some (x, r) \<Rightarrow>
          (case r of
             [] \<Rightarrow> None
           | c # cs \<Rightarrow>
               (if c = CHR '']'' then Some ([x], cs)
                else if c = CHR '','' then
                  (case parse_elements n cs of None \<Rightarrow> None | Some (xs, r') \<Rightarrow> Some (x # xs, r'))
                else None)))"
| "parse_members 0 s = None"
| "parse_members (Suc n) s =
     (case s of
        [] \<Rightarrow> None
      | q # t \<Rightarrow>
          (if q \<noteq> CHR 0x22 then None
           else
             (case read_string t of
                None \<Rightarrow> None
              | Some (k, r) \<Rightarrow>
                  (if take 1 r \<noteq> '':'' then None
                   else
                     (case parse_value n (drop 1 r) of
                        None \<Rightarrow> None
                      | Some (v, r') \<Rightarrow>
                          (case r' of
                             [] \<Rightarrow> None
                           | c # cs \<Rightarrow>
                               (if c = CHR ''}'' then Some ([(k, v)], cs)
                                else if c = CHR '','' then
                                  (case parse_members n cs of
                                     None \<Rightarrow> None
                                   | Some (ps, r2) \<Rightarrow> Some ((k, v) # ps, r2))
                                else None)))))))"

definition parse_json :: "string \<Rightarrow> json option" where
  "parse_json s =
     (case parse_value (Suc (length s)) s of
        Some (d, []) \<Rightarrow> Some d
      | _ \<Rightarrow> None)"

text \<open>
  Notions of the proofs. A rest of a text is \<open>unterminated\<close> when it starts with a
  digit: a number in front of it would run on into it. \<open>lead d c\<close>: the text of
  \<open>d\<close> starts with the character \<open>c\<close>. A \<open>plain_char\<close> is printed as it is inside
  a quoted string. \<open>need d\<close> is a number of nested calls that suffices to read the
  text of \<open>d\<close>.
\<close>

fun unterminated :: "string \<Rightarrow> bool" where
  "unterminated [] = False"
| "unterminated (c # cs) = is_digit c"

fun lead :: "json \<Rightarrow> char \<Rightarrow> bool" where
  "lead JNull c = (c = CHR ''n'')"
| "lead (JBool b) c = (c = (if b then CHR ''t'' else CHR ''f''))"
| "lead (JNum n) c = (c = CHR ''-'' \<or> is_digit c)"
| "lead (JStr s) c = (c = CHR 0x22)"
| "lead (JArr xs ps) c = (c = CHR ''['')"
| "lead (JObj ps) c = (c = CHR ''{'')"

definition plain_char :: "char \<Rightarrow> bool" where
  "plain_char c \<longleftrightarrow> c \<noteq> CHR 0x22 \<and> c \<noteq> CHR 0x5C \<and> 32 \<le> (of_char c :: nat)"

fun need :: "json \<Rightarrow> nat" where
  "need (JArr xs ps) = Suc (sum_list (map (\<lambda>x. Suc (need x)) xs))"
| "need (JObj ps) = Suc (sum_list (map (\<lambda>p. Suc (need (snd p))) ps))"
| "need _ = Suc 0"

subsection \<open>The document as an object graph\<close>

text \<open>
  In JavaScript an object is reached by reference, and one array can be the value of
  several properties: a supplied document may use one array as its \<^verbatim>\<open>should\<close>,
  its \<^verbatim>\<open>must\<close> and its \<^verbatim>\<open>sort\<close> list. Here the methods are embedded once more,
  over a store in which every object and every array is a cell of its own, and a
  property or an element holds a primitive value or a reference. \<open>Obj ps\<close> is a
  plain object with the own properties \<open>ps\<close>, \<open>Arr xs ps\<close> an array with the
  elements \<open>xs\<close> and the named own properties \<open>ps\<close>.
\<close>

datatype val = VNull | VBool bool | VNum int | VStr string | VRef addr

datatype obj = Obj "(string \<times> val) list" | Arr "val list" "(string \<times> val) list"

record store =
  objects :: "addr \<Rightarrow> obj"
  next_free :: addr

fun own :: "obj \<Rightarrow> (string \<times> val) list" where
  "own (Obj ps) = ps"
| "own (Arr xs ps) = ps"

text \<open>
  \<^verbatim>\<open>v.k\<close>: on \<^verbatim>\<open>null\<close> the read throws; an object or an array gives its own
  property, \<^verbatim>\<open>undefined\<close> (\<open>None\<close>) when it has none of that name; a boolean, a
  number or a string gives \<^verbatim>\<open>undefined\<close> for the names read here. As in
  \<open>update_at\<close>, an array's \<^verbatim>\<open>sort\<close> is the function of its prototype, on which
  \<^verbatim>\<open>push\<close> is \<^verbatim>\<open>undefined\<close>: the call throws as it does on \<open>None\<close>.
\<close>

fun get_prop :: "store \<Rightarrow> val \<Rightarrow> string \<Rightarrow> error + val option" where
  "get_prop g VNull k = Inl TypeError"
| "get_prop g (VRef a) k = Inr (map_of (own (objects g a)) k)"
| "get_prop g _ k = Inr None"

text \<open>
  \<^verbatim>\<open>v.k1. ... .kn\<close>: a property read on \<^verbatim>\<open>undefined\<close> throws.
\<close>

fun walk :: "store \<Rightarrow> val option \<Rightarrow> string list \<Rightarrow> error + val option" where
  "walk g v [] = Inr v"
| "walk g None (k # ks) = Inl TypeError"
| "walk g (Some v) (k # ks) =
     (case get_prop g v k of Inl e \<Rightarrow> Inl e | Inr w \<Rightarrow> walk g w ks)"

text \<open>An object or array literal: a new cell, and the reference to it.\<close>

definition new_obj :: "obj \<Rightarrow> store \<Rightarrow> val \<times> store" where
  "new_obj ob g =
     (VRef (next_free g),
      g\<lparr>objects := (objects g)(next_free g := ob), next_free := Suc (next_free g)\<rparr>)"

text \<open>
  \<^verbatim>\<open>target.push(x)\<close>: the target must be an array without an own property
  \<^verbatim>\<open>push\<close>; on \<^verbatim>\<open>undefined\<close>, \<^verbatim>\<open>null\<close>, a primitive value and a plain object the
  call throws. The array is changed in place: every property that refers to it sees
  the new element.
\<close>

fun push_to :: "val option \<Rightarrow> val \<Rightarrow> store \<Rightarrow> error + store" where
  "push_to (Some (VRef a)) x g =
     (case objects g a of
        Arr xs ps \<Rightarrow>
          (if map_of ps ''push'' = None
           then Inr (g\<lparr>objects := (objects g)(a := Arr (xs @ [x]) ps)\<rparr>)
           else Inl TypeError)
      | Obj ps \<Rightarrow> Inl TypeError)"
| "push_to _ x g = Inl TypeError"

text \<open>
  \<^verbatim>\<open>target.k = x\<close> in strict code: an object or an array gets or replaces its
  own property; \<^verbatim>\<open>undefined\<close>, \<^verbatim>\<open>null\<close> and the primitive values throw.
\<close>

fun assign_to :: "val option \<Rightarrow> string \<Rightarrow> val \<Rightarrow> store \<Rightarrow> error + store" where
  "assign_to (Some (VRef a)) k x g =
     Inr (g\<lparr>objects := (objects g)(a :=
            (case objects g a of
               Obj ps \<Rightarrow> Obj (AList.update k x ps)
             | Arr xs ps \<Rightarrow> Arr xs (AList.update k x ps)))\<rparr>)"
| "assign_to _ k x g = Inl TypeError"

text \<open>
  The literals of the methods. \<^verbatim>\<open>{kind: {[key]: value}}\<close> is two new objects. The
  \<^verbatim>\<open>shouldQuery\<close> of \<^verbatim>\<open>mustShouldMatch\<close> is \<^verbatim>\<open>{bool: {should: [...]}}\<close>, whose
  array \<^verbatim>\<open>terms.forEach\<close> fills with one match clause per pair before anything
  else refers to it, so the array is allocated with its elements. The sort entry is
  \<^verbatim>\<open>{[attribute]: {order: direction}}\<close>. The order in which the cells of one
  literal are allocated shows in their addresses only.
\<close>

definition new_clause :: "string \<Rightarrow> string \<Rightarrow> string \<Rightarrow> store \<Rightarrow> val \<times> store" where
  "new_clause kind key val g =
     (let (inner, g1) = new_obj (Obj [(key, VStr val)]) g
      in new_obj (Obj [(kind, inner)]) g1)"

fun new_clauses :: "(string \<times> string) list \<Rightarrow> store \<Rightarrow> val list \<times> store" where
  "new_clauses [] g = ([], g)"
| "new_clauses ((key, val) # ts) g =
     (let (x, g1) = new_clause ''match'' key val g;
          (xs, g2) = new_clauses ts g1
      in (x # xs, g2))"

definition new_should_query :: "(string \<times> string) list \<Rightarrow> store \<Rightarrow> val \<times> store" where
  "new_should_query terms g =
     (let (xs, g1) = new_clauses terms g;
          (arr, g2) = new_obj (Arr xs []) g1;
          (inner, g3) = new_obj (Obj [(''should'', arr)]) g2
      in new_obj (Obj [(''bool'', inner)]) g3)"

definition new_sort_entry :: "string \<Rightarrow> SortDirection option \<Rightarrow> store \<Rightarrow> val \<times> store" where
  "new_sort_entry attribute direction g =
     (let dir = (case direction of None \<Rightarrow> desc | Some d \<Rightarrow> d);
          (inner, g1) = new_obj (Obj [(''order'', VStr (direction_string dir))]) g
      in new_obj (Obj [(attribute, inner)]) g1)"

text \<open>
  The two forms of a method body. \<^verbatim>\<open>this.queryObject.k1. ... .kn.push(literal)\<close>:
  the receiver is read first, then the literal is created, then the element is
  appended. \<^verbatim>\<open>this.queryObject.k1. ... .kn.k = x\<close>: the holder is read, then the
  property assigned. Both return \<^verbatim>\<open>this\<close>; a throw leaves no result.
\<close>

definition appending ::
  "string list \<Rightarrow> (store \<Rightarrow> val \<times> store) \<Rightarrow> QueryBuilder \<Rightarrow> store \<Rightarrow> error + QueryBuilder \<times> store" where
  "appending path arg this g =
     (case walk g (Some (VRef (queryObject this))) path of
        Inl e \<Rightarrow> Inl e
      | Inr target \<Rightarrow>
          (let (x, g1) = arg g in
           case push_to target x g1 of
             Inl e \<Rightarrow> Inl e
           | Inr g2 \<Rightarrow> Inr (this, g2)))"

definition assigning ::
  "string list \<Rightarrow> string \<Rightarrow> val \<Rightarrow> QueryBuilder \<Rightarrow> store \<Rightarrow> error + QueryBuilder \<times> store" where
  "assigning path k x this g =
     (case walk g (Some (VRef (queryObject this))) path of
        Inl e \<Rightarrow> Inl e
      | Inr target \<Rightarrow>
          (case assign_to target k x g of
             Inl e \<Rightarrow> Inl e
           | Inr g1 \<Rightarrow> Inr (this, g1)))"

text \<open>The fourteen methods, by the \<open>call\<close> that names them.\<close>

fun invoke_in_graph :: "call \<Rightarrow> QueryBuilder \<Rightarrow> store \<Rightarrow> error + QueryBuilder \<times> store" where
  "invoke_in_graph (ShouldPrefix key val) =
     appending [''query'', ''bool'', ''should''] (new_clause ''prefix'' key val)"
| "invoke_in_graph (ShouldTerm key val) =
     appending [''query'', ''bool'', ''should''] (new_clause ''term'' key val)"
| "invoke_in_graph (ShouldWildcard key val) =
     appending [''query'', ''bool'', ''should''] (new_clause ''wildcard'' key (''*'' @ val @ ''*''))"
| "invoke_in_graph (ShouldMatch key val) =
     appending [''query'', ''bool'', ''should''] (new_clause ''match'' key val)"
| "invoke_in_graph (MustWildcard key val) =
     appending [''query'', ''bool'', ''must''] (new_clause ''wildcard'' key (''*'' @ val @ ''*''))"
| "invoke_in_graph (MustMatch key val) =
     appending [''query'', ''bool'', ''must''] (new_clause ''match'' key val)"
| "invoke_in_graph (MustShouldMatch terms) =
     appending [''query'', ''bool'', ''must''] (new_should_query terms)"
| "invoke_in_graph (MustTerm key val) =
     appending [''query'', ''bool'', ''must''] (new_clause ''term'' key val)"
| "invoke_in_graph (OfType type) =
     appending [''query'', ''bool'', ''must''] (new_clause ''term'' ''type'' type)"
| "invoke_in_graph (MustPrefix key val) =
     appending [''query'', ''bool'', ''must''] (new_clause ''prefix'' key val)"
| "invoke_in_graph (MinimumShouldMatch count) =
     assigning [''query'', ''bool''] ''minimum_should_match'' (VNum count)"
| "invoke_in_graph (Sort attribute direction) =
     appending [''sort''] (new_sort_entry attribute direction)"
| "invoke_in_graph (Size sz) =
     assigning [] ''size'' (VNum (case sz of None \<Rightarrow> 20 | Some n \<Rightarrow> n))"
| "invoke_in_graph (From frm) =
     assigning [] ''from'' (VNum (case frm of None \<Rightarrow> 0 | Some n \<Rightarrow> n))"

text \<open>
  The constructor's object literal,
  \<^verbatim>\<open>{ query: { bool: { should: [], must: [] } }, sort: [] }\<close>: three arrays and
  three objects, each a cell of its own.
\<close>

definition new_default_document :: "store \<Rightarrow> val \<times> store" where
  "new_default_document g =
     (let (should, g1) = new_obj (Arr [] []) g;
          (must, g2) = new_obj (Arr [] []) g1;
          (bool, g3) = new_obj (Obj [(''should'', should), (''must'', must)]) g2;
          (query, g4) = new_obj (Obj [(''bool'', bool)]) g3;
          (sort, g5) = new_obj (Arr [] []) g4
      in new_obj (Obj [(''query'', query), (''sort'', sort)]) g5)"

definition empty_store :: store where
  "empty_store = \<lparr>objects = (\<lambda>_. Obj []), next_free = 0\<rparr>"

text \<open>
  Reading the graph. \<open>field_value\<close> is what the document holds at the path of a
  field: a primitive value or a reference. The \<open>holder\<close> of a field is the object a
  call on that field writes to: the array itself for a list field, the object that
  has the property for \<^verbatim>\<open>minimum_should_match\<close>, \<^verbatim>\<open>size\<close> and \<^verbatim>\<open>from\<close>.
  \<open>list_of\<close> is the elements of the array of a list field.
\<close>

definition field_value :: "store \<Rightarrow> QueryBuilder \<Rightarrow> field \<Rightarrow> error + val option" where
  "field_value g this f = walk g (Some (VRef (queryObject this))) (path_of f)"

definition holder :: "store \<Rightarrow> QueryBuilder \<Rightarrow> field \<Rightarrow> addr option" where
  "holder g this f =
     (case walk g (Some (VRef (queryObject this)))
             (if is_list_field f then path_of f else butlast (path_of f)) of
        Inr (Some (VRef a)) \<Rightarrow> Some a
      | _ \<Rightarrow> None)"

fun elements :: "obj \<Rightarrow> val list option" where
  "elements (Arr xs ps) = Some xs"
| "elements (Obj ps) = None"

definition list_of :: "store \<Rightarrow> QueryBuilder \<Rightarrow> field \<Rightarrow> val list option" where
  "list_of g this f =
     (case holder g this f of Some a \<Rightarrow> elements (objects g a) | None \<Rightarrow> None)"

text \<open>
  A store is well formed when every reference held by an allocated cell points to an
  allocated cell. \<open>extends g g1\<close>: the store \<open>g1\<close> has the cells of \<open>g\<close> unchanged
  and possibly more; \<open>allocates g r\<close>: \<open>r\<close> is a reference to a cell new in its
  store, which extends \<open>g\<close>.
\<close>

fun val_below :: "addr \<Rightarrow> val \<Rightarrow> bool" where
  "val_below n (VRef a) = (a < n)"
| "val_below n _ = True"

fun obj_below :: "addr \<Rightarrow> obj \<Rightarrow> bool" where
  "obj_below n (Obj ps) = list_all (\<lambda>p. val_below n (snd p)) ps"
| "obj_below n (Arr xs ps) = (list_all (val_below n) xs \<and> list_all (\<lambda>p. val_below n (snd p)) ps)"

definition well_formed :: "store \<Rightarrow> bool" where
  "well_formed g \<longleftrightarrow>
     list_all (\<lambda>a. obj_below (next_free g) (objects g a)) [0..<next_free g]"

definition extends :: "store \<Rightarrow> store \<Rightarrow> bool" where
  "extends g g1 \<longleftrightarrow>
     next_free g \<le> next_free g1
     \<and> list_all (\<lambda>a. objects g1 a = objects g a) [0..<next_free g]"

definition allocates :: "store \<Rightarrow> val \<times> store \<Rightarrow> bool" where
  "allocates g r \<longleftrightarrow>
     extends g (snd r)
     \<and> (case fst r of VRef b \<Rightarrow> next_free g \<le> b \<and> b < next_free (snd r) | _ \<Rightarrow> False)"

section \<open>Properties\<close>

subsection \<open>Paths, updates and their frame\<close>

lemma map_of_update_eq:
  "map_of (AList.update k v ps) k' = (if k' = k then Some v else map_of ps k')"
  by (simp add: update_conv')

lemma update_at_Nil: "update_at [] f = f"
  by (rule ext) simp

lemma invoke_effect: "invoke c = mutate (effect c)"
proof (cases c)
  case (Sort a d)
  then show ?thesis
    by (cases d; cases "the d") (simp_all add: sort_by_def effect_def)
next
  case (Size n)
  then show ?thesis by (cases n) (simp_all add: size_of_def effect_def update_at_Nil)
next
  case (From n)
  then show ?thesis by (cases n) (simp_all add: from_offset_def effect_def update_at_Nil)
next
  case (MustShouldMatch ts)
  then show ?thesis
    by (simp add: mustShouldMatch_def effect_def clause_def case_prod_unfold)
qed (simp_all add: effect_def clause_def shouldPrefix_def shouldTerm_def shouldWildcard_def
      shouldMatch_def mustWildcard_def mustMatch_def mustTerm_def ofType_def mustPrefix_def
      minimumShouldMatch_def)

lemma path_split: "\<not> is_list_field f \<Longrightarrow> butlast (path_of f) @ [last (path_of f)] = path_of f"
  by (cases f) simp_all

lemma js_set_frame:
  "js_set k x v = Inr v' \<Longrightarrow> \<not> prefix r [k] \<Longrightarrow> \<not> prefix [k] r \<Longrightarrow> at r v' = at r v"
  by (cases v; cases r) (auto simp: map_of_update_eq)

lemma js_set_at: "js_set k x v = Inr v' \<Longrightarrow> at [k] v' = Some x"
  by (cases v) (auto simp: map_of_update_eq)

lemma js_push_Inr:
  "js_push x v = Inr v' \<Longrightarrow>
     \<exists>xs ps. v = JArr xs ps \<and> v' = JArr (xs @ [x]) ps \<and> map_of ps ''push'' = None"
  by (cases v) (auto split: if_splits)

lemma update_at_None: "at p d = None \<Longrightarrow> update_at p f d = Inl TypeError"
proof (induction p arbitrary: d)
  case Nil
  then show ?case by simp
next
  case (Cons k ks)
  then show ?case by (cases d) (auto split: option.splits)
qed

lemma update_at_Inr:
  "update_at p f d = Inr d' \<Longrightarrow> \<exists>v v'. at p d = Some v \<and> f v = Inr v' \<and> at p d' = Some v'"
proof (induction p arbitrary: d d')
  case Nil
  then show ?case by simp
next
  case (Cons k ks)
  then show ?case
    by (cases d) (auto simp: map_of_update_eq split: option.splits sum.splits)
qed

lemma update_at_Some_Inl:
  "at p d = Some v \<Longrightarrow> f v = Inl e \<Longrightarrow> update_at p f d = Inl e"
proof (induction p arbitrary: d)
  case Nil
  then show ?case by simp
next
  case (Cons k ks)
  then show ?case by (cases d) (auto split: option.splits)
qed

lemma update_at_Some_Inr:
  "at p d = Some v \<Longrightarrow> f v = Inr v' \<Longrightarrow> \<exists>d'. update_at p f d = Inr d'"
proof (induction p arbitrary: d)
  case Nil
  then show ?case by simp
next
  case (Cons k ks)
  then show ?case by (cases d) (fastforce split: option.splits)+
qed

lemma update_at_frame:
  assumes leaf: "\<And>v v' r. f v = Inr v' \<Longrightarrow> \<not> prefix r s \<Longrightarrow> \<not> prefix s r \<Longrightarrow> at r v' = at r v"
  shows "update_at p f d = Inr d' \<Longrightarrow> \<not> prefix q (p @ s) \<Longrightarrow> \<not> prefix (p @ s) q
    \<Longrightarrow> at q d' = at q d"
proof (induction p arbitrary: d d' q)
  case Nil
  then show ?case using leaf by simp
next
  case (Cons k ks)
  from Cons.prems(2) obtain b r where q: "q = b # r" by (cases q) auto
  show ?case
  proof (cases "b = k")
    case True
    with Cons.prems q have inc: "\<not> prefix r (ks @ s)" "\<not> prefix (ks @ s) r" by auto
    from Cons.prems(1) show ?thesis
      using Cons.IH[OF _ inc] q True
      by (cases d) (auto simp: map_of_update_eq split: option.splits sum.splits)
  next
    case False
    from Cons.prems(1) show ?thesis using q False
      by (cases d) (auto simp: map_of_update_eq split: option.splits sum.splits)
  qed
qed

lemma effect_frame:
  assumes "effect c d = Inr d'"
    and "\<not> prefix q (path_of (field_of c))" and "\<not> prefix (path_of (field_of c)) q"
  shows "at q d' = at q d"
proof (cases "is_list_field (field_of c)")
  case True
  with assms(1) have "update_at (path_of (field_of c)) (js_push (payload c)) d = Inr d'"
    by (simp add: effect_def Let_def)
  from update_at_frame[where s = "[]", OF _ this] assms(2,3) show ?thesis by simp
next
  case False
  let ?p = "path_of (field_of c)"
  from False assms(1) have "update_at (butlast ?p) (js_set (last ?p) (payload c)) d = Inr d'"
    by (simp add: effect_def Let_def)
  from update_at_frame[where s = "[last ?p]", OF js_set_frame this] assms(2,3) path_split[OF False]
  show ?thesis by simp
qed

lemma effect_list:
  assumes "is_list_field (field_of c)" and "effect c d = Inr d'"
  shows "\<exists>xs. list_at (path_of (field_of c)) d = Some xs
     \<and> list_at (path_of (field_of c)) d' = Some (xs @ [payload c])"
proof -
  from assms have "update_at (path_of (field_of c)) (js_push (payload c)) d = Inr d'"
    by (simp add: effect_def Let_def)
  from update_at_Inr[OF this] obtain v v' where
    "at (path_of (field_of c)) d = Some v" "js_push (payload c) v = Inr v'"
    "at (path_of (field_of c)) d' = Some v'" by blast
  with js_push_Inr[of "payload c" v v'] show ?thesis by (auto simp: list_at_def)
qed

lemma effect_list_ok:
  assumes "is_list_field (field_of c)" and "list_at (path_of (field_of c)) d = Some xs"
  shows "\<exists>d'. effect c d = Inr d'"
proof -
  from assms(2) obtain ps where "at (path_of (field_of c)) d = Some (JArr xs ps)"
    and "map_of ps ''push'' = None"
    by (auto simp: list_at_def split: option.splits json.splits if_splits)
  then have "js_push (payload c) (JArr xs ps) = Inr (JArr (xs @ [payload c]) ps)" by simp
  from update_at_Some_Inr[where f = "js_push (payload c)",
      OF \<open>at (path_of (field_of c)) d = Some (JArr xs ps)\<close> this] assms(1)
  show ?thesis by (simp add: effect_def Let_def)
qed

lemma effect_list_fail:
  assumes "is_list_field (field_of c)" and "list_at (path_of (field_of c)) d = None"
  shows "effect c d = Inl TypeError"
proof (cases "at (path_of (field_of c)) d")
  case None
  from update_at_None[OF this] assms(1) show ?thesis by (simp add: effect_def Let_def)
next
  case (Some v)
  with assms(2) have "js_push (payload c) v = Inl TypeError"
    by (cases v) (auto simp: list_at_def split: if_splits)
  from update_at_Some_Inl[where f = "js_push (payload c)", OF Some this] assms(1) show ?thesis by (simp add: effect_def Let_def)
qed

lemma update_at_set_at: "update_at ks (js_set k x) e = Inr e' \<Longrightarrow> at (ks @ [k]) e' = Some x"
proof (induction ks arbitrary: e e')
  case Nil
  then show ?case using js_set_at by simp
next
  case (Cons a ks)
  then show ?case
    by (cases e) (auto simp: map_of_update_eq split: option.splits sum.splits)
qed

lemma effect_set:
  assumes "\<not> is_list_field (field_of c)" and "effect c d = Inr d'"
  shows "at (path_of (field_of c)) d' = Some (payload c)"
proof -
  let ?p = "path_of (field_of c)"
  from assms have "update_at (butlast ?p) (js_set (last ?p) (payload c)) d = Inr d'"
    by (simp add: effect_def Let_def)
  from update_at_set_at[OF this] path_split[OF assms(1)] show ?thesis by simp
qed

subsection \<open>Calls and chains\<close>

lemma mutate_Inr:
  "mutate f this h = Inr (this', h') \<longleftrightarrow>
     (\<exists>d'. f (document this h) = Inr d' \<and> this' = this
        \<and> h' = h\<lparr>cells := (cells h)(queryObject this := d')\<rparr>)"
  by (auto simp: mutate_def document_def split: sum.splits)

lemma invoke_Inr:
  assumes "invoke c this h = Inr (this', h')"
  shows "this' = this" and "effect c (document this h) = Inr (document this h')"
    and "fresh h' = fresh h" and "a \<noteq> queryObject this \<Longrightarrow> cells h' a = cells h a"
  using assms by (auto simp: invoke_effect mutate_Inr document_def)

lemma invoke_Inl:
  "invoke c this h = Inl e \<longleftrightarrow> effect c (document this h) = Inl e"
  by (auto simp: invoke_effect mutate_def document_def split: sum.splits)

lemma invoke_ok:
  assumes "effect c (document this h) = Inr d'"
  shows "invoke c this h = Inr (this, h\<lparr>cells := (cells h)(queryObject this := d')\<rparr>)"
  using assms by (simp add: invoke_effect mutate_def document_def)

lemma paths_incomparable: "f \<noteq> g \<Longrightarrow> \<not> prefix (path_of f) (path_of g)"
  by (cases f; cases g) simp_all

lemma effect_other_field:
  assumes "effect c d = Inr d'" and "f \<noteq> field_of c"
  shows "at (path_of f) d' = at (path_of f) d"
  using effect_frame[OF assms(1), of "path_of f"] paths_incomparable[of f "field_of c"]
    paths_incomparable[of "field_of c" f] assms(2) by auto

lemma effect_lists:
  assumes "effect c d = Inr d'" and "is_list_field f"
  shows "list_at (path_of f) d' =
     map_option (\<lambda>xs. xs @ entries f [c]) (list_at (path_of f) d)"
proof (cases "f = field_of c")
  case True
  with effect_list[of c d d'] assms show ?thesis by (auto simp: entries_def)
next
  case False
  from effect_other_field[OF assms(1) False] False show ?thesis
    by (simp add: list_at_def entries_def option.map_ident)
qed

lemma entries_Cons: "entries f (c # cs) = entries f [c] @ entries f cs"
  by (simp add: entries_def)

lemma chain_lists:
  assumes "chain cs this h = Inr (this', h')" and "is_list_field f"
  shows "this' = this \<and> list_at (path_of f) (document this h') =
     map_option (\<lambda>xs. xs @ entries f cs) (list_at (path_of f) (document this h))"
  using assms(1)
proof (induction cs arbitrary: h)
  case Nil
  then show ?case by (simp add: entries_def option.map_ident)
next
  case (Cons c cs)
  from Cons.prems obtain h1 where
    1: "invoke c this h = Inr (this, h1)" and 2: "chain cs this h1 = Inr (this', h')"
    by (auto split: sum.splits dest: invoke_Inr(1))
  from effect_lists[OF invoke_Inr(2)[OF 1] assms(2)] Cons.IH[OF 2]
  show ?case by (simp add: entries_Cons[of f c cs] option.map_comp comp_def)
qed

lemma settable:
  "at (p @ [k]) d = Some v \<Longrightarrow> \<exists>d'. update_at p (js_set k' x) d = Inr d'"
proof (induction p arbitrary: d)
  case Nil
  then show ?case by (cases d) simp_all
next
  case (Cons a p)
  then show ?case by (cases d) (fastforce split: option.splits)+
qed

lemma list_at_Some_at: "list_at p d = Some xs \<Longrightarrow> \<exists>v. at p d = Some v"
  by (auto simp: list_at_def split: option.splits)

lemma effect_standard:
  assumes "standard d"
  shows "\<exists>d'. effect c d = Inr d'"
proof (cases "is_list_field (field_of c)")
  case True
  from assms have "list_at (path_of (field_of c)) d \<noteq> None"
    using True by (cases "field_of c") (auto simp: standard_def should_list_def must_list_def sort_list_def)
  with effect_list_ok[OF True] show ?thesis by blast
next
  case False
  from assms obtain v w where v: "at [''query'', ''bool'', ''should''] d = Some v"
    and w: "at [''sort''] d = Some w"
    by (auto simp: standard_def should_list_def sort_list_def dest!: list_at_Some_at)
  from settable[of "[''query'', ''bool'']" "''should''" d v] v
  have a: "\<exists>d'. update_at [''query'', ''bool''] (js_set k' x) d = Inr d'" for k' x by simp
  from settable[of "[]" "''sort''" d w] w
  have b: "\<exists>d'. update_at [] (js_set k' x) d = Inr d'" for k' x by simp
  from False a b show ?thesis
    by (cases "field_of c") (simp_all add: effect_def Let_def del: update_at.simps)
qed

lemma standard_effect:
  assumes "standard d" and "effect c d = Inr d'"
  shows "standard d'"
  using assms effect_lists[OF assms(2), of F_should] effect_lists[OF assms(2), of F_must]
    effect_lists[OF assms(2), of F_sort]
  by (auto simp: standard_def should_list_def must_list_def sort_list_def)

lemma chain_standard:
  assumes "standard (document this h)"
  shows "\<exists>h'. chain cs this h = Inr (this, h') \<and> standard (document this h')"
  using assms
proof (induction cs arbitrary: h)
  case Nil
  then show ?case by simp
next
  case (Cons c cs)
  from effect_standard[OF Cons.prems, of c] obtain d' where d': "effect c (document this h) = Inr d'"
    by blast
  let ?h1 = "h\<lparr>cells := (cells h)(queryObject this := d')\<rparr>"
  have doc: "document this ?h1 = d'" by (simp add: document_def)
  from standard_effect[OF Cons.prems d'] doc have "standard (document this ?h1)" by simp
  from Cons.IH[OF this] invoke_ok[OF d'] show ?case by simp
qed

lemma constructor_None:
  assumes "constructor None h = (b, h0)"
  shows "document b h0 = default_document" and "queryObject b = fresh h"
    and "a \<noteq> fresh h \<Longrightarrow> cells h0 a = cells h a" and "fresh h0 = Suc (fresh h)"
  using assms by (auto simp: constructor_def alloc_def document_def)

lemma default_lists:
  "should_list default_document = Some []" "must_list default_document = Some []"
  "sort_list default_document = Some []"
  by (simp_all add: default_document_def should_list_def must_list_def sort_list_def list_at_def)

lemma standard_default: "standard default_document"
  by (simp add: standard_def default_lists)

lemma invoke_appends:
  assumes "is_list_field (field_of c)"
    and "list_at (path_of (field_of c)) (document this h) = Some xs"
  shows "\<exists>h'. invoke c this h = Inr (this, h')
     \<and> list_at (path_of (field_of c)) (document this h') = Some (xs @ [payload c])"
proof -
  from effect_list_ok[OF assms] obtain d' where d': "effect c (document this h) = Inr d'"
    by blast
  let ?h' = "h\<lparr>cells := (cells h)(queryObject this := d')\<rparr>"
  have doc: "document this ?h' = d'" by (simp add: document_def)
  from effect_list[OF assms(1) d'] assms(2) doc
  have "list_at (path_of (field_of c)) (document this ?h') = Some (xs @ [payload c])" by simp
  with invoke_ok[OF d'] show ?thesis by blast
qed

subsection \<open>Assigning twice\<close>

lemma update_at_twice:
  assumes "\<And>v v1. f v = Inr v1 \<Longrightarrow> g v1 = g v"
  shows "update_at p f d = Inr d1 \<Longrightarrow> update_at p g d1 = update_at p g d"
proof (induction p arbitrary: d d1)
  case Nil
  then show ?case using assms by simp
next
  case (Cons k ks)
  then show ?case
    by (cases d) (auto simp: map_of_update_eq split: option.splits sum.splits)
qed

lemma js_set_twice: "js_set k x v = Inr v1 \<Longrightarrow> js_set k y v1 = js_set k y v"
  by (cases v) auto

lemma set_then_set:
  assumes "mutate (update_at p (js_set k x)) this h = Inr (this1, h1)"
  shows "mutate (update_at p (js_set k y)) this1 h1 = mutate (update_at p (js_set k y)) this h"
proof -
  from assms obtain d1 where d1: "update_at p (js_set k x) (document this h) = Inr d1"
    and t: "this1 = this" and h1: "h1 = h\<lparr>cells := (cells h)(queryObject this := d1)\<rparr>"
    by (auto simp: mutate_Inr)
  from update_at_twice[where f = "js_set k x" and g = "js_set k y", OF js_set_twice d1]
  have "update_at p (js_set k y) d1 = update_at p (js_set k y) (document this h)" .
  with t h1 show ?thesis by (auto simp: mutate_def document_def split: sum.splits)
qed

lemma set_then_set_ok:
  assumes "mutate (update_at p (js_set k x)) this h = Inr (this1, h1)"
  shows "\<exists>h2. mutate (update_at p (js_set k y)) this h = Inr (this, h2)
     \<and> at (p @ [k]) (document this h2) = Some y"
proof -
  from assms obtain d1 where d1: "update_at p (js_set k x) (document this h) = Inr d1"
    by (auto simp: mutate_Inr)
  from update_at_Inr[OF d1] obtain v v' where v: "at p (document this h) = Some v"
    "js_set k x v = Inr v'" by blast
  then obtain w where "js_set k y v = Inr w" by (cases v) auto
  from update_at_Some_Inr[where f = "js_set k y", OF v(1) this] obtain d2 where 
    d2: "update_at p (js_set k y) (document this h) = Inr d2" by blast
  from update_at_set_at[OF d2] d2 show ?thesis by (simp add: mutate_def document_def)
qed

subsection \<open>Which calls return\<close>

lemma update_at_append: "update_at (p @ r) f d = update_at p (update_at r f) d"
  by (induction p f d rule: update_at.induct) (simp_all add: update_at_Nil split: option.splits)

lemma update_at_object:
  assumes "\<And>v v'. f v = Inr v' \<Longrightarrow> is_object v \<and> is_object v'"
    and "update_at p f d = Inr d'"
  shows "is_object d \<and> is_object d'"
proof (cases p)
  case Nil
  with assms show ?thesis by simp
next
  case (Cons k ks)
  with assms(2) show ?thesis by (cases d) (auto split: option.splits sum.splits)
qed

lemma js_set_object: "js_set k x v = Inr v' \<Longrightarrow> is_object v \<and> is_object v'"
  by (cases v) auto

lemma js_push_object: "js_push x v = Inr v' \<Longrightarrow> is_object v \<and> is_object v'"
  by (cases v) (auto split: if_splits)

lemma js_set_ok: "is_object v \<Longrightarrow> \<exists>v'. js_set k x v = Inr v'"
  by (cases v) auto

lemma js_set_fail: "\<not> is_object v \<Longrightarrow> js_set k x v = Inl TypeError"
  by (cases v) auto

lemma effect_object:
  assumes "effect c d = Inr d'"
  shows "is_object d \<and> is_object d'"
proof (cases "is_list_field (field_of c)")
  case True
  with assms have "update_at (path_of (field_of c)) (js_push (payload c)) d = Inr d'"
    by (simp add: effect_def)
  from update_at_object[where f = "js_push (payload c)", OF js_push_object this]
  show ?thesis .
next
  case False
  with assms have "update_at (butlast (path_of (field_of c)))
      (js_set (last (path_of (field_of c))) (payload c)) d = Inr d'"
    by (simp add: effect_def Let_def)
  from update_at_object[where f = "js_set (last (path_of (field_of c))) (payload c)",
      OF js_set_object this]
  show ?thesis .
qed

lemma effect_below:
  assumes "effect c d = Inr d'" and "prefix p (path_of (field_of c))" and "p \<noteq> path_of (field_of c)"
  shows "\<exists>v v'. at p d = Some v \<and> at p d' = Some v' \<and> is_object v \<and> is_object v'"
proof -
  from assms(2,3) obtain r where r: "path_of (field_of c) = p @ r" and "r \<noteq> []"
    by (auto simp: prefix_def)
  show ?thesis
  proof (cases "is_list_field (field_of c)")
    case True
    with assms(1) r have "update_at p (update_at r (js_push (payload c))) d = Inr d'"
      by (simp add: effect_def update_at_append)
    from update_at_Inr[OF this] obtain v v' where v: "at p d = Some v" "at p d' = Some v'"
      "update_at r (js_push (payload c)) v = Inr v'" by blast
    have "is_object w \<and> is_object w'" if "js_push (payload c) w = Inr w'" for w w'
      using that by (rule js_push_object)
    from update_at_object[OF this v(3)] v(1,2)
    show ?thesis by blast
  next
    case False
    from \<open>r \<noteq> []\<close> r have bl: "butlast (path_of (field_of c)) = p @ butlast r"
      by (simp add: butlast_append)
    with False assms(1) have "update_at p (update_at (butlast r)
        (js_set (last (path_of (field_of c))) (payload c))) d = Inr d'"
      by (simp add: effect_def Let_def update_at_append)
    from update_at_Inr[OF this] obtain v v' where v: "at p d = Some v" "at p d' = Some v'"
      "update_at (butlast r) (js_set (last (path_of (field_of c))) (payload c)) v = Inr v'"
      by blast
    have "is_object w \<and> is_object w'"
      if "js_set (last (path_of (field_of c))) (payload c) w = Inr w'" for w w'
      using that by (rule js_set_object)
    from update_at_object[OF this v(3)] v(1,2)
    show ?thesis by blast
  qed
qed

lemma invoke_iff_present:
  "(\<exists>d'. effect c d = Inr d') \<longleftrightarrow> structure_present c d"
proof (cases "is_list_field (field_of c)")
  case True
  show ?thesis
  proof (cases "list_at (path_of (field_of c)) d")
    case None
    from effect_list_fail[OF True None] None True show ?thesis
      by (simp add: structure_present_def)
  next
    case (Some xs)
    from effect_list_ok[OF True Some] Some True show ?thesis
      by (simp add: structure_present_def)
  qed
next
  case False
  let ?p = "butlast (path_of (field_of c))"
  let ?f = "js_set (last (path_of (field_of c))) (payload c)"
  have e: "effect c d = update_at ?p ?f d" using False by (simp add: effect_def Let_def)
  show ?thesis
  proof (cases "at ?p d")
    case None
    from update_at_None[OF None, of ?f] None False e show ?thesis
      by (simp add: structure_present_def)
  next
    case (Some v)
    show ?thesis
    proof (cases "is_object v")
      case True
      from js_set_ok[OF True] obtain v' where "?f v = Inr v'" by blast
      from update_at_Some_Inr[where f = ?f, OF Some this] Some True False e show ?thesis
        by (simp add: structure_present_def)
    next
      case no: False
      from update_at_Some_Inl[where f = ?f, OF Some js_set_fail[OF no]] Some no False e
      show ?thesis by (simp add: structure_present_def)
    qed
  qed
qed

lemma error_eq: "(a :: error) = b"
  by (cases a; cases b) simp

lemma effect_Inl: "effect c d = Inl e \<longleftrightarrow> \<not> structure_present c d"
  using invoke_iff_present[of c d] by (cases "effect c d") (auto intro: error_eq)

lemma setter_parent:
  "\<not> is_list_field f \<Longrightarrow> butlast (path_of f) \<noteq> [] \<Longrightarrow> butlast (path_of f) = [''query'', ''bool'']"
  by (cases f) simp_all

lemma query_bool_cases:
  "(prefix [''query'', ''bool''] (path_of g) \<and> [''query'', ''bool''] \<noteq> path_of g)
   \<or> (\<not> prefix [''query'', ''bool''] (path_of g) \<and> \<not> prefix (path_of g) [''query'', ''bool''])"
  by (cases g) simp_all

lemma present_invariant:
  assumes "effect c' d = Inr d'"
  shows "structure_present c d' = structure_present c d"
proof (cases "is_list_field (field_of c)")
  case True
  from effect_lists[OF assms True] True show ?thesis
    by (cases "list_at (path_of (field_of c)) d") (simp_all add: structure_present_def)
next
  case False
  let ?p = "butlast (path_of (field_of c))"
  let ?qb = "[''query'', ''bool'']"
  have sp: "structure_present c e = (case at ?p e of Some v \<Rightarrow> is_object v | None \<Rightarrow> False)" for e
    using False by (simp add: structure_present_def)
  show ?thesis
  proof (cases "?p = []")
    case True
    from effect_object[OF assms] have "is_object d" "is_object d'" by simp_all
    then show ?thesis unfolding sp True by simp
  next
    case ne: False
    note p = setter_parent[OF False ne]
    from query_bool_cases[of "field_of c'"] show ?thesis
    proof
      assume a: "prefix ?qb (path_of (field_of c')) \<and> ?qb \<noteq> path_of (field_of c')"
      then have a1: "prefix ?qb (path_of (field_of c'))" and a2: "?qb \<noteq> path_of (field_of c')"
        by blast+
      from effect_below[OF assms a1 a2] obtain v v' where
        "at ?qb d = Some v" "at ?qb d' = Some v'" "is_object v" "is_object v'" by blast
      then show ?thesis unfolding sp p by (simp del: at.simps)
    next
      assume a: "\<not> prefix ?qb (path_of (field_of c')) \<and> \<not> prefix (path_of (field_of c')) ?qb"
      then have a1: "\<not> prefix ?qb (path_of (field_of c'))"
        and a2: "\<not> prefix (path_of (field_of c')) ?qb" by blast+
      from effect_frame[OF assms a1 a2] have "at ?qb d' = at ?qb d" .
      then show ?thesis unfolding sp p by (simp del: at.simps)
    qed
  qed
qed

lemma chain_present:
  assumes "chain cs this h = Inr (this', h')"
  shows "this' = this \<and> structure_present c (document this h') = structure_present c (document this h)"
  using assms
proof (induction cs arbitrary: h)
  case Nil
  then show ?case by simp
next
  case (Cons c' cs)
  from Cons.prems obtain h1 where
    1: "invoke c' this h = Inr (this, h1)" and 2: "chain cs this h1 = Inr (this', h')"
    by (auto split: sum.splits dest: invoke_Inr(1))
  from present_invariant[OF invoke_Inr(2)[OF 1], of c] Cons.IH[OF 2] show ?case by simp
qed

lemma chain_snoc:
  "chain (cs @ [c]) this h =
     (case chain cs this h of Inl e \<Rightarrow> Inl e | Inr (this', h') \<Rightarrow> invoke c this' h')"
  by (induction cs arbitrary: this h) (auto split: sum.splits)

subsection \<open>The serialisation and the paths it prints\<close>

lemma digit_chars:
  "char_of (48::nat) = CHR ''0''" "char_of (49::nat) = CHR ''1''" "char_of (50::nat) = CHR ''2''"
  "char_of (51::nat) = CHR ''3''" "char_of (52::nat) = CHR ''4''" "char_of (53::nat) = CHR ''5''"
  "char_of (54::nat) = CHR ''6''" "char_of (55::nat) = CHR ''7''" "char_of (56::nat) = CHR ''8''"
  "char_of (57::nat) = CHR ''9''"
  by code_simp+

lemma stringify_default:
  \<open>stringify default_document = ''{"query":{"bool":{"should":[],"must":[]}},"sort":[]}''\<close>
  by (simp add: default_document_def quote_def quote_char_def)

lemma show_nat_nonempty: "show_nat n \<noteq> []"
  by (subst show_nat.simps) simp

lemma push_keeps_plain:
  "update_at p (js_push x) d = Inr d' \<Longrightarrow> plain_at q d \<Longrightarrow> plain_at q d'"
proof (induction p arbitrary: d d' q)
  case Nil
  then show ?case by (cases d; cases q) auto
next
  case (Cons k ks)
  show ?case
  proof (cases q)
    case Nil
    then show ?thesis by simp
  next
    case (Cons b r)
    with Cons.prems Cons.IH show ?thesis
      by (cases d) (auto simp: map_of_update_eq split: option.splits sum.splits)
  qed
qed

lemma set_keeps_plain:
  "update_at p (js_set k x) d = Inr d' \<Longrightarrow> k \<notin> set q \<Longrightarrow> plain_at q d \<Longrightarrow> plain_at q d'"
proof (induction p arbitrary: d d' q)
  case Nil
  then show ?case by (cases d; cases q) (auto simp: map_of_update_eq)
next
  case (Cons a ks)
  show ?case
  proof (cases q)
    case Nil
    then show ?thesis by simp
  next
    case (Cons b r)
    with Cons.prems Cons.IH show ?thesis
      by (cases d) (auto simp: map_of_update_eq split: option.splits sum.splits)
  qed
qed

lemma effect_keeps_plain:
  assumes "effect c d = Inr d'" and "is_list_field f" and "plain_at (path_of f) d"
  shows "plain_at (path_of f) d'"
proof (cases "is_list_field (field_of c)")
  case True
  with assms(1) have "update_at (path_of (field_of c)) (js_push (payload c)) d = Inr d'"
    by (simp add: effect_def)
  from push_keeps_plain[OF this assms(3)] show ?thesis .
next
  case False
  let ?p = "path_of (field_of c)"
  from False assms(1) have u: "update_at (butlast ?p) (js_set (last ?p) (payload c)) d = Inr d'"
    by (simp add: effect_def Let_def)
  from False assms(2) have "last ?p \<notin> set (path_of f)"
    by (cases "field_of c"; cases f) simp_all
  from set_keeps_plain[OF u this assms(3)] show ?thesis .
qed

lemma printed_default: "printed default_document"
  by (simp add: printed_def default_document_def)

lemma effect_printed: "effect c d = Inr d' \<Longrightarrow> printed d \<Longrightarrow> printed d'"
  using effect_keeps_plain[of c d d' F_should] effect_keeps_plain[of c d d' F_must]
    effect_keeps_plain[of c d d' F_sort]
  by (simp add: printed_def)

lemma chain_printed:
  "chain cs this h = Inr (this', h') \<Longrightarrow> printed (document this h) \<Longrightarrow> printed (document this h')"
proof (induction cs arbitrary: h)
  case Nil
  then show ?case by simp
next
  case (Cons c cs)
  from Cons.prems(1) obtain h1 where
    1: "invoke c this h = Inr (this, h1)" and 2: "chain cs this h1 = Inr (this', h')"
    by (auto split: sum.splits dest: invoke_Inr(1))
  from effect_printed[OF invoke_Inr(2)[OF 1] Cons.prems(2)] Cons.IH[OF 2] show ?case by simp
qed

subsection \<open>Numbers and strings are read back\<close>

lemma show_nat_digits: "c \<in> set (show_nat n) \<Longrightarrow> is_digit c"
proof (induction n arbitrary: c rule: show_nat.induct)
  case (1 n)
  show ?case
  proof (cases "n < 10")
    case True
    with "1.prems" show ?thesis
      by (subst (asm) show_nat.simps) (simp add: is_digit_def)
  next
    case False
    have "n mod 10 < 10" by simp
    with False "1.prems" "1.IH" show ?thesis
      by (subst (asm) show_nat.simps) (auto simp: is_digit_def)
  qed
qed

lemma show_nat_nonempty': "\<exists>c cs. show_nat n = c # cs \<and> is_digit c"
proof -
  from show_nat_nonempty[of n] obtain c cs where "show_nat n = c # cs"
    by (cases "show_nat n") auto
  with show_nat_digits[of c n] show ?thesis by simp
qed

lemma read_nat_snoc: "read_nat (s @ [c]) = 10 * read_nat s + (of_char c - 48)"
  by (simp add: read_nat_def)

lemma read_show_nat: "read_nat (show_nat n) = n"
proof (induction n rule: show_nat.induct)
  case (1 n)
  show ?case
  proof (cases "n < 10")
    case True
    then show ?thesis by (subst show_nat.simps) (simp add: read_nat_def)
  next
    case False
    have "n mod 10 < 10" by simp
    with False "1.IH" show ?thesis
      by (subst show_nat.simps) (simp add: read_nat_snoc)
  qed
qed

lemma takeWhile_digits:
  "\<not> unterminated r \<Longrightarrow> takeWhile is_digit (show_nat n @ r) = show_nat n"
  by (cases r) (simp_all add: takeWhile_append2 show_nat_digits)

lemma minus_not_digit: "\<not> is_digit CHR ''-''"
  by (simp add: is_digit_def)

lemma show_int_lead: "\<exists>c cs. show_int i = c # cs \<and> (c = CHR ''-'' \<or> is_digit c)"
  using show_nat_nonempty'[of "nat i"] by (auto simp: show_int_def)

lemma stringify_lead: "\<exists>c cs. stringify d = c # cs \<and> lead d c"
  using show_int_lead by (cases d) (auto simp: quote_def)

lemma quote_char_plain: "plain_char c \<Longrightarrow> quote_char c = [c]"
  by (auto simp: quote_char_def plain_char_def)

lemma join_Cons: "join (s # ss) = s @ concat (map (\<lambda>t. CHR '','' # t) ss)"
  by (induction ss arbitrary: s) simp_all

lemma lead_not_closing: "lead d c \<Longrightarrow> c \<noteq> CHR '']'' \<and> c \<noteq> CHR ''}'' \<and> c \<noteq> CHR '',''"
  by (cases d) (auto simp: is_digit_def split: if_splits)

lemma hex_value_zero: "hex_value CHR ''0'' = Some 0"
  by (simp add: hex_value_def)

lemma hex_value_hex_digit: "d < 16 \<Longrightarrow> hex_value (hex_digit d) = Some d"
  by (auto simp: hex_value_def hex_digit_def Let_def)

lemma read_string_step:
  "read_string (quote_char c @ t) =
     (case read_string t of None \<Rightarrow> None | Some (s, r) \<Rightarrow> Some (c # s, r))"
proof (cases "plain_char c")
  case True
  then have "quote_char c = [c]" by (rule quote_char_plain)
  with True show ?thesis by (simp add: plain_char_def not_less)
next
  case False
  show ?thesis
  proof (cases "c = CHR 0x22 \<or> c = CHR 0x5C \<or> c = CHR 0x08 \<or> c = CHR 0x0C \<or> c = CHR 0x0A
      \<or> c = CHR 0x0D \<or> c = CHR 0x09")
    case True
    then show ?thesis
      by (auto simp: quote_char_def unescape_def)
  next
    case other: False
    with False have l: "(of_char c :: nat) < 32" by (auto simp: plain_char_def)
    then have d: "(of_char c :: nat) div 16 < 16" "(of_char c :: nat) mod 16 < 16" by simp_all
    from other l have q: "quote_char c = [CHR 0x5C, CHR ''u'', CHR ''0'', CHR ''0'',
         hex_digit (of_char c div 16), hex_digit (of_char c mod 16)]"
      by (simp add: quote_char_def)
    have e: "char_of (16 * ((of_char c :: nat) div 16) + of_char c mod 16) = c"
      by (simp only: mult_div_mod_eq char_of_char)
    show ?thesis
      unfolding q
      by (simp add: hex_value_zero hex_value_hex_digit[OF d(1)] hex_value_hex_digit[OF d(2)] e
          split: option.splits)
  qed
qed

lemma read_string_quote: "read_string (concat (map quote_char s) @ CHR 0x22 # r) = Some (s, r)"
  by (induction s) (simp_all add: read_string_step del: read_string.simps(2), simp)

lemma dropWhile_digits:
  "\<not> unterminated r \<Longrightarrow> dropWhile is_digit (show_nat n @ r) = r"
  by (cases r) (simp_all add: dropWhile_append2 show_nat_digits)

lemma zero_char: "d < 10 \<Longrightarrow> char_of (48 + d :: nat) = CHR ''0'' \<longleftrightarrow> d = 0"
proof
  assume d: "d < 10" and "char_of (48 + d) = CHR ''0''"
  then have "(of_char (char_of (48 + d)) :: nat) = of_char CHR ''0''" by simp
  with d show "d = 0" by simp
next
  assume "d = 0"
  then show "char_of (48 + d) = CHR ''0''" by (simp add: digit_chars)
qed

lemma show_nat_no_leading_zero: "0 < n \<Longrightarrow> hd (show_nat n) \<noteq> CHR ''0''"
proof (induction n rule: show_nat.induct)
  case (1 n)
  show ?case
  proof (cases "n < 10")
    case True
    with "1.prems" zero_char[of n] show ?thesis by (subst show_nat.simps) simp
  next
    case False
    then have p: "0 < n div 10" by simp
    from show_nat_nonempty[of "n div 10"] have "hd (show_nat (n div 10) @ [char_of (48 + n mod 10)])
        = hd (show_nat (n div 10))" by simp
    with False "1.IH"[OF False p] show ?thesis by (subst show_nat.simps) simp
  qed
qed

lemma show_nat_zero: "show_nat 0 = ''0''"
  by (subst show_nat.simps) (simp add: digit_chars)

lemma read_digits_show:
  assumes "\<not> unterminated r"
  shows "read_digits (show_nat n @ r) = Some (n, r)"
proof -
  have "hd (show_nat n) = CHR ''0'' \<longrightarrow> show_nat n = ''0''"
    using show_nat_no_leading_zero[of n] show_nat_zero by (cases "n = 0") auto
  with show_nat_nonempty[of n] show ?thesis
    by (auto simp: read_digits_def Let_def takeWhile_digits[OF assms] dropWhile_digits[OF assms]
        read_show_nat)
qed

lemma read_number_show:
  assumes "\<not> unterminated r"
  shows "read_number (show_int i @ r) = Some (i, r)"
proof (cases "i < 0")
  case True
  then have "show_int i @ r = CHR ''-'' # show_nat (nat (- i)) @ r" by (simp add: show_int_def)
  with True read_digits_show[OF assms, of "nat (- i)"] show ?thesis
    by (simp add: read_number_def)
next
  case False
  from show_nat_nonempty'[of "nat i"] obtain c cs where
    c: "show_nat (nat i) = c # cs" "is_digit c" by blast
  with minus_not_digit have "c \<noteq> CHR ''-''" by auto
  with False c read_digits_show[OF assms, of "nat i"] show ?thesis
    by (simp add: read_number_def show_int_def)
qed

subsection \<open>The text is read back to the document\<close>

lemma length_join: "length (join ss) = sum_list (map length ss) + (length ss - 1)"
  by (induction ss rule: join.induct) simp_all

lemma bracket_not_digit: "\<not> is_digit CHR '']''" "\<not> is_digit CHR ''}''" "\<not> is_digit CHR '',''"
  by (simp_all add: is_digit_def)

lemma number_dispatch:
  assumes "c = CHR ''-'' \<or> is_digit c"
  shows "c \<noteq> CHR ''n''" "c \<noteq> CHR ''t''" "c \<noteq> CHR ''f''" "c \<noteq> CHR 0x22" "c \<noteq> CHR ''[''"
    "c \<noteq> CHR ''{''"
  using assms by (auto simp: is_digit_def)

lemma parse_elements_ok:
  assumes "\<And>x f r. x \<in> set xs \<Longrightarrow> need x \<le> f \<Longrightarrow> \<not> unterminated r
      \<Longrightarrow> parse_value f (stringify x @ r) = Some (x, r)"
    and "xs \<noteq> []" and "sum_list (map (\<lambda>x. Suc (need x)) xs) \<le> n"
  shows "parse_elements n (join (map stringify xs) @ CHR '']'' # r) = Some (xs, r)"
  using assms
proof (induction xs arbitrary: n)
  case Nil
  then show ?case by simp
next
  case (Cons x xs)
  from Cons.prems(3) obtain m where n: "n = Suc m" and m: "need x \<le> m"
    and ms: "sum_list (map (\<lambda>x. Suc (need x)) xs) \<le> m"
    by (cases n) simp_all
  show ?case
  proof (cases xs)
    case Nil
    have "parse_value m (stringify x @ CHR '']'' # r) = Some (x, CHR '']'' # r)"
      by (rule Cons.prems(1)) (simp_all add: m bracket_not_digit)
    with Nil n show ?thesis by simp
  next
    case (Cons y ys)
    have t: "join (map stringify (x # xs)) @ CHR '']'' # r =
        stringify x @ CHR '','' # (join (map stringify xs) @ CHR '']'' # r)"
      using Cons by simp
    have v: "parse_value m (stringify x @ CHR '','' # (join (map stringify xs) @ CHR '']'' # r))
        = Some (x, CHR '','' # (join (map stringify xs) @ CHR '']'' # r))"
      by (rule Cons.prems(1)) (simp_all add: m bracket_not_digit)
    have e: "parse_elements m (join (map stringify xs) @ CHR '']'' # r) = Some (xs, r)"
      by (rule Cons.IH) (use Cons.prems(1) Cons ms in simp_all)
    show ?thesis unfolding t n by (simp add: v e)
  qed
qed

lemma parse_members_ok:
  assumes "\<And>k v f r. (k, v) \<in> set ps \<Longrightarrow> need v \<le> f \<Longrightarrow> \<not> unterminated r
      \<Longrightarrow> parse_value f (stringify v @ r) = Some (v, r)"
    and "ps \<noteq> []" and "sum_list (map (\<lambda>p. Suc (need (snd p))) ps) \<le> n"
  shows "parse_members n
      (join (map (\<lambda>(k, v). quote k @ '':'' @ stringify v) ps) @ CHR ''}'' # r) = Some (ps, r)"
  using assms
proof (induction ps arbitrary: n)
  case Nil
  then show ?case by simp
next
  case (Cons p ps)
  obtain k v where p: "p = (k, v)" by (cases p)
  from Cons.prems(3) p obtain m where n: "n = Suc m" and m: "need v \<le> m"
    and ms: "sum_list (map (\<lambda>p. Suc (need (snd p))) ps) \<le> m"
    by (cases n) simp_all
  have key: "read_string (concat (map quote_char k) @ CHR 0x22 # CHR '':'' # R) =
      Some (k, CHR '':'' # R)" for R
    by (rule read_string_quote)
  let ?g = "\<lambda>(k, v). quote k @ CHR '':'' # stringify v"
  have g: "(\<lambda>(k, v). quote k @ '':'' @ stringify v) = ?g" by simp
  have "parse_members n (join (map ?g (p # ps)) @ CHR ''}'' # r) = Some (p # ps, r)"
  proof (cases ps)
    case Nil
    have "parse_value m (stringify v @ CHR ''}'' # r) = Some (v, CHR ''}'' # r)"
      by (rule Cons.prems(1)[of k]) (simp_all add: p m bracket_not_digit)
    with Nil n p key show ?thesis by (simp add: quote_def)
  next
    case (Cons q qs)
    let ?rest = "join (map ?g ps) @ CHR ''}'' # r"
    have t: "join (map ?g (p # ps)) @ CHR ''}'' # r =
        CHR 0x22 # concat (map quote_char k) @ CHR 0x22 # CHR '':'' # (stringify v @ CHR '','' # ?rest)"
      using Cons p by (simp add: quote_def)
    have v: "parse_value m (stringify v @ CHR '','' # ?rest) = Some (v, CHR '','' # ?rest)"
      by (rule Cons.prems(1)[of k]) (simp_all add: p m bracket_not_digit)
    have e: "parse_members m ?rest = Some (ps, r)"
      using Cons.IH[of m] Cons.prems(1) Cons ms unfolding g by auto
    show ?thesis unfolding t n by (simp add: key v e p)
  qed
  then show ?case unfolding g .
qed

lemma parse_stringify:
  "json_data d \<Longrightarrow> need d \<le> f \<Longrightarrow> \<not> unterminated r
     \<Longrightarrow> parse_value f (stringify d @ r) = Some (d, r)"
proof (induction d arbitrary: f r rule: stringify.induct)
  case 1
  then show ?case by (cases f) simp_all
next
  case (2 b)
  then show ?case by (cases f) simp_all
next
  case (3 n)
  from show_int_lead[of n] obtain c cs where c: "show_int n = c # cs"
    "c = CHR ''-'' \<or> is_digit c" by blast
  from "3.prems"(2) obtain m where f: "f = Suc m" by (cases f) simp_all
  from read_number_show[OF "3.prems"(3), of n] c(1)
  have "read_number (c # cs @ r) = Some (n, r)" by simp
  with number_dispatch[OF c(2)] show ?case by (simp add: f c(1))
next
  case (4 s)
  from "4.prems"(2) obtain m where f: "f = Suc m" by (cases f) simp_all
  show ?case by (simp add: f quote_def read_string_quote)
next
  case (5 xs ps)
  from "5.prems"(1) have ps: "ps = []" and d: "\<forall>x \<in> set xs. json_data x"
    by (simp_all add: list_all_iff)
  from "5.prems"(2) obtain m where f: "f = Suc m"
    and m: "sum_list (map (\<lambda>x. Suc (need x)) xs) \<le> m" by (cases f) simp_all
  show ?case
  proof (cases xs)
    case Nil
    with ps f show ?thesis by simp
  next
    case (Cons y ys)
    have e: "parse_elements m (join (map stringify xs) @ CHR '']'' # r) = Some (xs, r)"
      by (rule parse_elements_ok) (use "5.IH" d Cons m in auto)
    from stringify_lead[of y] obtain c cs where c: "stringify y = c # cs" "lead y c" by blast
    from lead_not_closing[OF c(2)] have "c \<noteq> CHR '']''" by simp
    with c(1) Cons have "take 1 (join (map stringify xs) @ CHR '']'' # r) \<noteq> '']''"
      by (simp add: join_Cons)
    with e ps f show ?thesis by simp
  qed
next
  case (6 ps)
  from "6.prems"(1) have d: "\<forall>p \<in> set ps. json_data (snd p)"
    by (simp add: list_all_iff)
  from "6.prems"(2) obtain m where f: "f = Suc m"
    and m: "sum_list (map (\<lambda>p. Suc (need (snd p))) ps) \<le> m" by (cases f) simp_all
  show ?case
  proof (cases ps)
    case Nil
    with f show ?thesis by simp
  next
    case (Cons q qs)
    have ih: "parse_value f (stringify v @ r) = Some (v, r)"
      if "(k, v) \<in> set ps" "need v \<le> f" "\<not> unterminated r" for k v f r
      using "6.IH"[of "(k, v)" k v f r] that d by auto
    have e: "parse_members m
        (join (map (\<lambda>(k, v). quote k @ '':'' @ stringify v) ps) @ CHR ''}'' # r) = Some (ps, r)"
      by (rule parse_members_ok[OF ih]) (use Cons m in simp_all)
    have "take 1 (join (map (\<lambda>(k, v). quote k @ '':'' @ stringify v) ps) @ CHR ''}'' # r)
        \<noteq> ''}''"
      using Cons by (cases q) (simp add: join_Cons quote_def)
    with e f show ?thesis by simp
  qed
qed

lemma need_le_length: "need d \<le> length (stringify d)"
proof (induction d rule: stringify.induct)
  case (3 n)
  from show_int_lead[of n] show ?case by auto
next
  case (5 xs ps)
  then have "sum_list (map need xs) \<le> sum_list (map (length \<circ> stringify) xs)"
    by (intro sum_list_mono) simp
  then show ?case by (cases xs) (simp_all add: length_join sum_list_Suc comp_def)
next
  case (6 ps)
  have "sum_list (map (\<lambda>p. need (snd p)) ps)
      \<le> sum_list (map (\<lambda>p. length (quote (fst p) @ '':'' @ stringify (snd p))) ps)"
  proof (intro sum_list_mono)
    fix p assume "p \<in> set ps"
    with "6.IH"[of p "fst p" "snd p"] show "need (snd p)
        \<le> length (quote (fst p) @ '':'' @ stringify (snd p))" by simp
  qed
  then show ?case
    by (cases ps) (simp_all add: length_join sum_list_Suc comp_def case_prod_unfold)
qed (simp_all add: quote_def)

lemma parse_json_stringify: "json_data d \<Longrightarrow> parse_json (stringify d) = Some d"
  using parse_stringify[of d "Suc (length (stringify d))" "[]"] need_le_length[of d]
  by (simp add: parse_json_def)

lemma stringify_inj:
  assumes "json_data d" and "json_data d'" and "stringify d = stringify d'"
  shows "d = d'"
proof -
  have "Some d = parse_json (stringify d)"
    by (rule parse_json_stringify[OF assms(1), symmetric])
  also have "\<dots> = parse_json (stringify d')" by (simp only: assms(3))
  also have "\<dots> = Some d'" by (rule parse_json_stringify[OF assms(2)])
  finally show ?thesis by (simp only: option.inject)
qed

subsection \<open>Calls keep JSON data\<close>

lemma payload_data: "safe_call c \<Longrightarrow> json_data (payload c)"
  by (cases c rule: payload.cases) (simp_all add: clause_def list_all_iff case_prod_unfold)

lemma list_all_update:
  "list_all P ps \<Longrightarrow> P (k, v) \<Longrightarrow> list_all P (AList.update k v ps)"
  by (induction ps) auto

lemma data_lookup: "list_all (\<lambda>p. json_data (snd p)) ps \<Longrightarrow> map_of ps k = Some c \<Longrightarrow> json_data c"
  by (auto simp: list_all_iff dest!: map_of_SomeD)

lemma push_keeps_data:
  "update_at p (js_push x) d = Inr d' \<Longrightarrow> json_data d \<Longrightarrow> json_data x \<Longrightarrow> json_data d'"
proof (induction p arbitrary: d d')
  case Nil
  then show ?case by (cases d) (auto split: if_splits)
next
  case (Cons k ks)
  show ?case
  proof (cases d)
    case (JObj ps)
    with Cons.prems(1) obtain c c' where c: "map_of ps k = Some c" "update_at ks (js_push x) c = Inr c'"
      and d': "d' = JObj (AList.update k c' ps)"
      by (auto split: option.splits sum.splits)
    from Cons.prems(2) JObj have l: "list_all (\<lambda>p. json_data (snd p)) ps" by simp
    from Cons.IH[OF c(2) data_lookup[OF l c(1)] Cons.prems(3)] list_all_update[OF l] d'
    show ?thesis by simp
  qed (use Cons.prems in auto)
qed

lemma set_keeps_data:
  "update_at p (js_set k x) d = Inr d' \<Longrightarrow> plain_at (p @ [k']) d \<Longrightarrow> json_data d
     \<Longrightarrow> json_data x \<Longrightarrow> json_data d'"
proof (induction p arbitrary: d d')
  case Nil
  show ?case
  proof (cases d)
    case (JObj ps)
    with Nil.prems have "list_all (\<lambda>p. json_data (snd p)) ps" "d' = JObj (AList.update k x ps)"
      by simp_all
    with list_all_update[of "\<lambda>p. json_data (snd p)" ps k x] Nil.prems(4) show ?thesis by simp
  qed (use Nil.prems in auto)
next
  case (Cons a ks)
  show ?case
  proof (cases d)
    case (JObj ps)
    with Cons.prems(1) obtain c c' where c: "map_of ps a = Some c" "update_at ks (js_set k x) c = Inr c'"
      and d': "d' = JObj (AList.update a c' ps)"
      by (auto split: option.splits sum.splits)
    from Cons.prems(3) JObj have l: "list_all (\<lambda>p. json_data (snd p)) ps" by simp
    from Cons.prems(2) JObj c(1) have "plain_at (ks @ [k']) c" by simp
    from Cons.IH[OF c(2) this data_lookup[OF l c(1)] Cons.prems(4)] list_all_update[OF l] d'
    show ?thesis by simp
  qed (use Cons.prems in auto)
qed

lemma effect_keeps_data:
  assumes "effect c d = Inr d'" and "json_data d" and "printed d" and "safe_call c"
  shows "json_data d'"
proof (cases "is_list_field (field_of c)")
  case True
  with assms(1) have "update_at (path_of (field_of c)) (js_push (payload c)) d = Inr d'"
    by (simp add: effect_def)
  from push_keeps_data[OF this assms(2) payload_data[OF assms(4)]] show ?thesis .
next
  case False
  let ?p = "path_of (field_of c)"
  from False assms(1) have u: "update_at (butlast ?p) (js_set (last ?p) (payload c)) d = Inr d'"
    by (simp add: effect_def Let_def)
  from False assms(3) have "\<exists>k'. plain_at (butlast ?p @ [k']) d"
    by (cases "field_of c") (auto simp: printed_def)
  then obtain k' where "plain_at (butlast ?p @ [k']) d" by blast
  from set_keeps_data[OF u this assms(2) payload_data[OF assms(4)]] show ?thesis .
qed

lemma chain_keeps_data:
  "chain cs this h = Inr (this', h') \<Longrightarrow> json_data (document this h) \<Longrightarrow> printed (document this h)
     \<Longrightarrow> list_all safe_call cs \<Longrightarrow> json_data (document this h')"
proof (induction cs arbitrary: h)
  case Nil
  then show ?case by simp
next
  case (Cons c cs)
  from Cons.prems(1) obtain h1 where
    1: "invoke c this h = Inr (this, h1)" and 2: "chain cs this h1 = Inr (this', h')"
    by (auto split: sum.splits dest: invoke_Inr(1))
  note e = invoke_Inr(2)[OF 1]
  from Cons.prems(4) have s: "safe_call c" "list_all safe_call cs" by simp_all
  from Cons.IH[OF 2 effect_keeps_data[OF e Cons.prems(2,3) s(1)]
      effect_printed[OF e Cons.prems(3)] s(2)]
  show ?case .
qed

lemma data_default: "json_data default_document"
  by (simp add: default_document_def)

lemma chain_changes_list:
  assumes "chain ds this h = Inr (this', h')" and "standard (document this h)"
    and "c \<in> set ds" and "is_list_field (field_of c)"
  shows "document this h' \<noteq> document this h"
proof -
  from assms(2,4) obtain xs where xs: "list_at (path_of (field_of c)) (document this h) = Some xs"
    by (cases "field_of c") (auto simp: standard_def should_list_def must_list_def sort_list_def)
  from assms(3) have "entries (field_of c) ds \<noteq> []"
    by (auto simp: entries_def filter_empty_conv)
  with chain_lists[OF assms(1,4)] xs
  have "list_at (path_of (field_of c)) (document this h') \<noteq>
      list_at (path_of (field_of c)) (document this h)" by simp
  then show ?thesis by auto
qed

lemma at_data_plain: "at p d = Some v \<Longrightarrow> json_data d \<Longrightarrow> plain_at p d"
proof (induction p arbitrary: d)
  case Nil
  then show ?case by simp
next
  case (Cons k ks)
  show ?case
  proof (cases d)
    case (JObj ps)
    with Cons.prems(1) obtain c where c: "map_of ps k = Some c" "at ks c = Some v"
      by (auto split: option.splits)
    from Cons.prems(2) JObj have "list_all (\<lambda>p. json_data (snd p)) ps" by simp
    from Cons.IH[OF c(2) data_lookup[OF this c(1)]] JObj c(1) show ?thesis by simp
  qed (use Cons.prems in auto)
qed

lemma data_standard_printed:
  assumes "json_data d" and "standard d"
  shows "printed d"
proof -
  from assms(2) obtain u v w where "at [''query'', ''bool'', ''should''] d = Some u"
    "at [''query'', ''bool'', ''must''] d = Some v" "at [''sort''] d = Some w"
    unfolding standard_def should_list_def must_list_def sort_list_def
    by (auto dest!: list_at_Some_at)
  from this[THEN at_data_plain, OF assms(1)] show ?thesis
    unfolding printed_def by (intro conjI)
qed

lemma chain_standard_data:
  assumes "json_data (document this h)" and "standard (document this h)"
    and "list_all safe_call cs"
  shows "\<exists>h'. chain cs this h = Inr (this, h')
     \<and> json_data (document this h') \<and> standard (document this h')
     \<and> (toString this h' = toString this h \<longleftrightarrow> document this h' = document this h)
     \<and> ((\<exists>e \<in> set cs. is_list_field (field_of e)) \<longrightarrow> toString this h' \<noteq> toString this h)"
proof -
  from chain_standard[OF assms(2), of cs] obtain h' where
    c: "chain cs this h = Inr (this, h')" and s: "standard (document this h')" by blast
  note p = data_standard_printed[OF assms(1,2)]
  note j = chain_keeps_data[OF c assms(1) p assms(3)]
  have i: "toString this h' = toString this h \<longleftrightarrow> document this h' = document this h"
    using stringify_inj[OF j assms(1)] by (auto simp: toString_def document_def)
  have "toString this h' \<noteq> toString this h" if "\<exists>e \<in> set cs. is_list_field (field_of e)"
  proof -
    from that obtain e where "e \<in> set cs" "is_list_field (field_of e)" by blast
    from chain_changes_list[OF c assms(2) this] i show ?thesis by simp
  qed
  with c j s i show ?thesis by blast
qed

subsection \<open>The object graph: allocation, reading and the two writes\<close>

lemma well_formed_iff:
  "well_formed g \<longleftrightarrow> (\<forall>a < next_free g. obj_below (next_free g) (objects g a))"
  by (auto simp: well_formed_def list_all_iff)

lemma extends_iff:
  "extends g g1 \<longleftrightarrow>
     next_free g \<le> next_free g1 \<and> (\<forall>a < next_free g. objects g1 a = objects g a)"
  by (auto simp: extends_def list_all_iff)

lemma extends_refl: "extends g g"
  by (simp add: extends_iff)

lemma extends_trans: "extends g g1 \<Longrightarrow> extends g1 g2 \<Longrightarrow> extends g g2"
  by (auto simp: extends_iff)

lemma new_obj_extends: "new_obj ob g = (x, g1) \<Longrightarrow> extends g g1"
  by (auto simp: new_obj_def extends_iff)

lemma new_clause_extends: "new_clause kind key v g = (x, g1) \<Longrightarrow> extends g g1"
  by (auto simp: new_clause_def new_obj_def extends_iff split: prod.splits)

lemma new_clauses_extends: "new_clauses ts g = (xs, g1) \<Longrightarrow> extends g g1"
proof (induction ts arbitrary: g xs g1)
  case Nil
  then show ?case by (simp add: extends_refl)
next
  case (Cons t ts)
  obtain key v where t: "t = (key, v)" by (cases t)
  obtain x g' where c: "new_clause ''match'' key v g = (x, g')" by (cases "new_clause ''match'' key v g")
  obtain ys g'' where r: "new_clauses ts g' = (ys, g'')" by (cases "new_clauses ts g'")
  from Cons.prems t c r have "g1 = g''" by simp
  with extends_trans[OF new_clause_extends[OF c] Cons.IH[OF r]] show ?case by simp
qed

lemma new_should_query_extends: "new_should_query ts g = (x, g1) \<Longrightarrow> extends g g1"
proof -
  assume a: "new_should_query ts g = (x, g1)"
  obtain xs ga where 1: "new_clauses ts g = (xs, ga)" by (cases "new_clauses ts g")
  obtain arr gb where 2: "new_obj (Arr xs []) ga = (arr, gb)" by (cases "new_obj (Arr xs []) ga")
  obtain inner gc where 3: "new_obj (Obj [(''should'', arr)]) gb = (inner, gc)"
    by (cases "new_obj (Obj [(''should'', arr)]) gb")
  from a 1 2 3 have 4: "new_obj (Obj [(''bool'', inner)]) gc = (x, g1)"
    by (simp add: new_should_query_def)
  from extends_trans[OF new_clauses_extends[OF 1]
      extends_trans[OF new_obj_extends[OF 2] extends_trans[OF new_obj_extends[OF 3] new_obj_extends[OF 4]]]]
  show ?thesis .
qed

lemma new_sort_entry_extends: "new_sort_entry a d g = (x, g1) \<Longrightarrow> extends g g1"
  by (auto simp: new_sort_entry_def new_obj_def extends_iff Let_def split: prod.splits)

lemma allocates_iff:
  "allocates g r \<longleftrightarrow>
     extends g (snd r) \<and> (\<exists>b. fst r = VRef b \<and> next_free g \<le> b \<and> b < next_free (snd r))"
  by (auto simp: allocates_def split: val.splits)

lemma new_obj_allocates: "allocates g (new_obj ob g)"
  by (simp add: allocates_iff new_obj_def extends_iff)

lemma allocates_after: "extends g g1 \<Longrightarrow> allocates g1 r \<Longrightarrow> allocates g r"
  by (auto simp: allocates_iff extends_iff)

lemma new_clause_allocates: "allocates g (new_clause kind key v g)"
  by (simp add: new_clause_def new_obj_def allocates_iff extends_iff)

lemma new_sort_entry_allocates: "allocates g (new_sort_entry a d g)"
  by (simp add: new_sort_entry_def new_obj_def allocates_iff extends_iff Let_def)

lemma new_should_query_allocates: "allocates g (new_should_query ts g)"
proof -
  obtain xs ga where 1: "new_clauses ts g = (xs, ga)" by (cases "new_clauses ts g")
  obtain arr gb where 2: "new_obj (Arr xs []) ga = (arr, gb)" by (cases "new_obj (Arr xs []) ga")
  obtain inner gc where 3: "new_obj (Obj [(''should'', arr)]) gb = (inner, gc)"
    by (cases "new_obj (Obj [(''should'', arr)]) gb")
  have 4: "new_should_query ts g = new_obj (Obj [(''bool'', inner)]) gc"
    using 1 2 3 by (simp add: new_should_query_def)
  from extends_trans[OF new_clauses_extends[OF 1]
      extends_trans[OF new_obj_extends[OF 2] new_obj_extends[OF 3]]]
  have "extends g gc" .
  from allocates_after[OF this new_obj_allocates] 4 show ?thesis by simp
qed

lemma own_below: "obj_below n ob \<Longrightarrow> map_of (own ob) k = Some u \<Longrightarrow> val_below n u"
  by (cases ob) (auto simp: list_all_iff dest!: map_of_SomeD)

lemma walk_None: "walk g' None p = walk g None p"
  by (cases p) simp_all

lemma walk_below:
  "well_formed g \<Longrightarrow> val_below (next_free g) v \<Longrightarrow> walk g (Some v) p = Inr (Some w)
     \<Longrightarrow> val_below (next_free g) w"
proof (induction p arbitrary: v)
  case Nil
  then show ?case by simp
next
  case (Cons k ks)
  show ?case
  proof (cases v)
    case (VRef a)
    with Cons.prems(2) have a: "a < next_free g" by simp
    with Cons.prems(1) have ob: "obj_below (next_free g) (objects g a)"
      by (simp add: well_formed_iff)
    show ?thesis
    proof (cases "map_of (own (objects g a)) k")
      case None
      with Cons.prems(3) VRef show ?thesis by (cases ks) simp_all
    next
      case (Some u)
      from own_below[OF ob Some] Cons.IH[OF Cons.prems(1), of u] Cons.prems(3) VRef Some
      show ?thesis by simp
    qed
  next
    case VNull
    with Cons.prems(3) show ?thesis by simp
  next
    case (VBool x)
    with Cons.prems(3) show ?thesis by (cases ks) simp_all
  next
    case (VNum x)
    with Cons.prems(3) show ?thesis by (cases ks) simp_all
  next
    case (VStr x)
    with Cons.prems(3) show ?thesis by (cases ks) simp_all
  qed
qed

lemma walk_frame:
  assumes "well_formed g"
    and "\<And>a k. a < next_free g \<Longrightarrow> k \<in> set p \<Longrightarrow>
           map_of (own (objects g' a)) k = map_of (own (objects g a)) k"
  shows "val_below (next_free g) v \<Longrightarrow> walk g' (Some v) p = walk g (Some v) p"
  using assms(2)
proof (induction p arbitrary: v)
  case Nil
  then show ?case by simp
next
  case (Cons k ks)
  have ih: "val_below (next_free g) u \<Longrightarrow> walk g' (Some u) ks = walk g (Some u) ks" for u
    using Cons.IH[of u] Cons.prems(2) by simp
  show ?case
  proof (cases v)
    case (VRef a)
    with Cons.prems(1) have a: "a < next_free g" by simp
    with assms(1) have ob: "obj_below (next_free g) (objects g a)"
      by (simp add: well_formed_iff)
    from Cons.prems(2)[OF a, of k]
    have e: "map_of (own (objects g' a)) k = map_of (own (objects g a)) k" by simp
    show ?thesis
    proof (cases "map_of (own (objects g a)) k")
      case None
      with e VRef walk_None[of g' ks g] show ?thesis by simp
    next
      case (Some u)
      from ih[OF own_below[OF ob Some]] e VRef Some show ?thesis by simp
    qed
  qed (simp_all add: walk_None[of g' ks g])
qed

lemma walk_append:
  "walk g v (p @ q) = (case walk g v p of Inl e \<Rightarrow> Inl e | Inr w \<Rightarrow> walk g w q)"
proof (induction p arbitrary: v)
  case Nil
  then show ?case by simp
next
  case (Cons k ks)
  then show ?case by (cases v) (auto split: sum.splits)
qed

lemma invoke_in_graph_appends:
  "is_list_field (field_of c) \<Longrightarrow>
     \<exists>arg. invoke_in_graph c = appending (path_of (field_of c)) arg \<and> (\<forall>g. allocates g (arg g))"
  by (cases c)
    (auto intro: new_clause_allocates new_should_query_allocates new_sort_entry_allocates)

lemma invoke_in_graph_assigns:
  "\<not> is_list_field (field_of c) \<Longrightarrow>
     \<exists>n. payload c = JNum n \<and>
       invoke_in_graph c =
         assigning (butlast (path_of (field_of c))) (last (path_of (field_of c))) (VNum n)"
  by (cases c rule: payload.cases) auto

lemma push_to_Inr:
  "push_to target x g = Inr g' \<Longrightarrow>
     \<exists>t xs ps. target = Some (VRef t) \<and> objects g t = Arr xs ps
       \<and> g' = g\<lparr>objects := (objects g)(t := Arr (xs @ [x]) ps)\<rparr>"
  by (cases "(target, x, g)" rule: push_to.cases) (auto split: obj.splits if_splits)

lemma assign_to_Inr:
  "assign_to target k x g = Inr g' \<Longrightarrow>
     \<exists>t. target = Some (VRef t)
       \<and> g' = g\<lparr>objects := (objects g)(t :=
            (case objects g t of
               Obj ps \<Rightarrow> Obj (AList.update k x ps)
             | Arr xs ps \<Rightarrow> Arr xs (AList.update k x ps)))\<rparr>"
  by (cases "(target, k, x, g)" rule: assign_to.cases) auto

lemma appending_effect:
  assumes wf: "well_formed g" and d: "queryObject this < next_free g"
    and al: "\<And>g. allocates g (arg g)"
    and r: "appending path arg this g = Inr (this', g')"
  shows "this' = this \<and>
    (\<exists>t xs ps b. walk g (Some (VRef (queryObject this))) path = Inr (Some (VRef t))
       \<and> t < next_free g \<and> objects g t = Arr xs ps \<and> objects g' t = Arr (xs @ [VRef b]) ps
       \<and> next_free g \<le> b
       \<and> (\<forall>a. a < next_free g \<and> a \<noteq> t \<longrightarrow> objects g' a = objects g a))"
proof -
  obtain x g1 where a: "arg g = (x, g1)" by (cases "arg g")
  from r a obtain target where w: "walk g (Some (VRef (queryObject this))) path = Inr target"
    and p: "push_to target x g1 = Inr g'" and t: "this' = this"
    by (auto simp: appending_def split: sum.splits)
  from push_to_Inr[OF p] obtain t xs ps where tg: "target = Some (VRef t)"
    and o1: "objects g1 t = Arr xs ps"
    and g': "g' = g1\<lparr>objects := (objects g1)(t := Arr (xs @ [x]) ps)\<rparr>" by blast
  from al[of g] a obtain b where e: "extends g g1" and x: "x = VRef b" and b: "next_free g \<le> b"
    by (auto simp: allocates_iff)
  from walk_below[OF wf _ w[unfolded tg]] d have tn: "t < next_free g" by simp
  with e o1 have o: "objects g t = Arr xs ps" by (simp add: extends_iff)
  have "objects g' a = objects g a" if "a < next_free g \<and> a \<noteq> t" for a
    using that e g' by (simp add: extends_iff)
  with t w tg tn o g' x b show ?thesis by auto
qed

lemma assigning_effect:
  assumes wf: "well_formed g" and d: "queryObject this < next_free g"
    and r: "assigning path k x this g = Inr (this', g')"
  shows "this' = this \<and>
    (\<exists>t. walk g (Some (VRef (queryObject this))) path = Inr (Some (VRef t))
       \<and> t < next_free g
       \<and> own (objects g' t) = AList.update k x (own (objects g t))
       \<and> elements (objects g' t) = elements (objects g t)
       \<and> (\<forall>a. a < next_free g \<and> a \<noteq> t \<longrightarrow> objects g' a = objects g a))"
proof -
  from r obtain target where w: "walk g (Some (VRef (queryObject this))) path = Inr target"
    and p: "assign_to target k x g = Inr g'" and t: "this' = this"
    by (auto simp: assigning_def split: sum.splits)
  from assign_to_Inr[OF p] obtain t where tg: "target = Some (VRef t)"
    and g': "g' = g\<lparr>objects := (objects g)(t :=
            (case objects g t of
               Obj ps \<Rightarrow> Obj (AList.update k x ps)
             | Arr xs ps \<Rightarrow> Arr xs (AList.update k x ps)))\<rparr>" by blast
  from walk_below[OF wf _ w[unfolded tg]] d have tn: "t < next_free g" by simp
  have "own (objects g' t) = AList.update k x (own (objects g t))"
    and "elements (objects g' t) = elements (objects g t)"
    using g' by (cases "objects g t"; simp)+
  moreover have "objects g' a = objects g a" if "a < next_free g \<and> a \<noteq> t" for a
    using that g' by simp
  ultimately show ?thesis using t w tg tn by auto
qed

lemma other_field_key: "f \<noteq> g \<Longrightarrow> \<not> is_list_field g \<Longrightarrow> last (path_of g) \<notin> set (path_of f)"
  by (cases f; cases g) simp_all

lemma holder_path_subset:
  "set (if is_list_field f then path_of f else butlast (path_of f)) \<subseteq> set (path_of f)"
  by (cases f) auto

subsection \<open>Evaluating concrete chains\<close>

lemmas run_defs = shouldPrefix_def shouldTerm_def shouldWildcard_def shouldMatch_def
  mustWildcard_def mustMatch_def mustShouldMatch_def mustTerm_def ofType_def mustPrefix_def
  minimumShouldMatch_def sort_by_def size_of_def from_offset_def mutate_def

lemmas graph_defs = appending_def assigning_def new_clause_def new_should_query_def
  new_sort_entry_def new_obj_def holder_def list_of_def field_value_def

lemma new_default_document_empty:
  "new_default_document empty_store =
   (VRef 5, \<lparr>objects = (\<lambda>_. Obj [])
        (0 := Arr [] [], 1 := Arr [] [],
         2 := Obj [(''should'', VRef 0), (''must'', VRef 1)],
         3 := Obj [(''bool'', VRef 2)],
         4 := Arr [] [],
         5 := Obj [(''query'', VRef 3), (''sort'', VRef 4)]),
      next_free = 6\<rparr>)"
  by (simp add: new_default_document_def new_obj_def empty_store_def eval_nat_numeral)

section \<open>The claims\<close>

subsection \<open>C1: list lengths count the calls\<close>

text \<open>
  C1. On a builder constructed with the default document every sequence of mutator
  calls succeeds, and afterwards the length of \<^verbatim>\<open>query.bool.should\<close> is the number
  of \<^verbatim>\<open>should*\<close> calls in the sequence and the length of \<^verbatim>\<open>query.bool.must\<close> is
  the number of \<^verbatim>\<open>must*\<close>, \<^verbatim>\<open>ofType\<close> and \<^verbatim>\<open>mustShouldMatch\<close> calls; a
  \<^verbatim>\<open>mustShouldMatch\<close> call counts once, whatever the length of its argument.
\<close>

theorem fresh_builder_list_lengths:
  assumes "constructor None h = (b, h0)"
  shows "\<exists>h'. chain cs b h0 = Inr (b, h')
     \<and> map_option length (should_list (document b h')) =
         Some (length (filter (\<lambda>c. field_of c = F_should) cs))
     \<and> map_option length (must_list (document b h')) =
         Some (length (filter (\<lambda>c. field_of c = F_must) cs))"
proof -
  have "standard (document b h0)"
    using constructor_None(1)[OF assms] standard_default by simp
  from chain_standard[OF this, of cs] obtain h' where c: "chain cs b h0 = Inr (b, h')"
    by blast
  from chain_lists[OF c, of F_should] chain_lists[OF c, of F_must]
    constructor_None(1)[OF assms] default_lists
  have "should_list (document b h') = Some (entries F_should cs)"
    and "must_list (document b h') = Some (entries F_must cs)"
    by (simp_all add: should_list_def must_list_def)
  with c show ?thesis by (simp add: entries_def)
qed

text \<open>
  An instance: six calls, one to \<^verbatim>\<open>should\<close>, three to \<^verbatim>\<open>must\<close> (two of them
  \<^verbatim>\<open>mustShouldMatch\<close>, with three terms and with none).
\<close>

theorem fresh_builder_list_lengths_witness:
  "constructor None empty_heap = (\<lparr>queryObject = 0\<rparr>, \<lparr>cells = (\<lambda>_. JNull)(0 := default_document), fresh = 1\<rparr>)
   \<and> (\<exists>h'. chain [ShouldTerm ''a'' ''b'', MustShouldMatch [(''k'', ''1''), (''l'', ''2''), (''m'', ''3'')],
                 Size (Some 5), OfType ''user'', MustShouldMatch [], Sort ''rank'' None]
          \<lparr>queryObject = 0\<rparr> \<lparr>cells = (\<lambda>_. JNull)(0 := default_document), fresh = 1\<rparr> = Inr (\<lparr>queryObject = 0\<rparr>, h')
      \<and> map_option length (should_list (document \<lparr>queryObject = 0\<rparr> h')) = Some 1
      \<and> map_option length (must_list (document \<lparr>queryObject = 0\<rparr> h')) = Some 3)"
proof -
  let ?cs = "[ShouldTerm ''a'' ''b'', MustShouldMatch [(''k'', ''1''), (''l'', ''2''), (''m'', ''3'')],
           Size (Some 5), OfType ''user'', MustShouldMatch [], Sort ''rank'' None]"
  have c: "constructor None empty_heap =
      (\<lparr>queryObject = 0\<rparr>, \<lparr>cells = (\<lambda>_. JNull)(0 := default_document), fresh = 1\<rparr>)"
    by (simp add: constructor_def alloc_def empty_heap_def)
  have n: "length (filter (\<lambda>c. field_of c = F_should) ?cs) = 1"
    "length (filter (\<lambda>c. field_of c = F_must) ?cs) = 3"
    by simp_all
  note t = fresh_builder_list_lengths[OF c, of ?cs, unfolded n]
  from c t show ?thesis by (rule conjI)
qed

subsection \<open>C2: call order is list order\<close>

text \<open>
  C2. The clause-adding calls of a chain append their clauses to the list they
  target in call order: after a chain that returns, \<^verbatim>\<open>should\<close> and \<^verbatim>\<open>must\<close> are
  the lists from before followed by the clauses of the calls that target them, one
  per call, in the order of the calls; on a fresh builder the chain returns and the
  lists are exactly these clauses. Nothing is reordered, merged or removed, so a
  repeated call leaves its clause twice.
\<close>

theorem chain_appends_in_call_order:
  "(chain cs this h = Inr (this', h') \<longrightarrow>
      should_list (document this h') =
        map_option (\<lambda>xs. xs @ entries F_should cs) (should_list (document this h))
    \<and> must_list (document this h') =
        map_option (\<lambda>xs. xs @ entries F_must cs) (must_list (document this h)))
   \<and> (constructor None g = (b, g0) \<longrightarrow>
      (\<exists>g1. chain cs b g0 = Inr (b, g1)
        \<and> should_list (document b g1) = Some (entries F_should cs)
        \<and> must_list (document b g1) = Some (entries F_must cs)))"
proof (intro conjI impI)
  assume c: "chain cs this h = Inr (this', h')"
  from chain_lists[OF c, of F_should]
  show "should_list (document this h') =
        map_option (\<lambda>xs. xs @ entries F_should cs) (should_list (document this h))"
    by (simp add: should_list_def)
  from chain_lists[OF c, of F_must]
  show "must_list (document this h') =
        map_option (\<lambda>xs. xs @ entries F_must cs) (must_list (document this h))"
    by (simp add: must_list_def)
next
  assume n: "constructor None g = (b, g0)"
  have "standard (document b g0)"
    using constructor_None(1)[OF n] standard_default by simp
  from chain_standard[OF this, of cs] obtain g1 where c: "chain cs b g0 = Inr (b, g1)"
    by blast
  from chain_lists[OF c, of F_should] chain_lists[OF c, of F_must]
    constructor_None(1)[OF n] default_lists
  have "should_list (document b g1) = Some (entries F_should cs)"
    and "must_list (document b g1) = Some (entries F_must cs)"
    by (simp_all add: should_list_def must_list_def)
  with c show "\<exists>g1. chain cs b g0 = Inr (b, g1)
        \<and> should_list (document b g1) = Some (entries F_should cs)
        \<and> must_list (document b g1) = Some (entries F_must cs)" by blast
qed

text \<open>An instance with the same \<^verbatim>\<open>shouldMatch\<close> call made twice.\<close>

theorem chain_appends_in_call_order_witness:
  "constructor None empty_heap =
     (\<lparr>queryObject = 0\<rparr>, \<lparr>cells = (\<lambda>_. JNull)(0 := default_document), fresh = 1\<rparr>)
   \<and> chain [ShouldMatch ''a'' ''1'', MustPrefix ''p'' ''q'', ShouldMatch ''a'' ''1'']
        \<lparr>queryObject = 0\<rparr> \<lparr>cells = (\<lambda>_. JNull)(0 := default_document), fresh = 1\<rparr> =
      Inr (\<lparr>queryObject = 0\<rparr>,
           \<lparr>cells = (\<lambda>_. JNull)(0 :=
              JObj [(''query'', JObj [(''bool'', JObj
                       [(''should'', JArr [JObj [(''match'', JObj [(''a'', JStr ''1'')])],
                                           JObj [(''match'', JObj [(''a'', JStr ''1'')])]] []),
                        (''must'', JArr [JObj [(''prefix'', JObj [(''p'', JStr ''q'')])]] [])])]),
                    (''sort'', JArr [] [])]),
             fresh = 1\<rparr>)
   \<and> (\<exists>g1. chain [ShouldMatch ''a'' ''1'', MustPrefix ''p'' ''q'', ShouldMatch ''a'' ''1'']
          \<lparr>queryObject = 0\<rparr> \<lparr>cells = (\<lambda>_. JNull)(0 := default_document), fresh = 1\<rparr> =
          Inr (\<lparr>queryObject = 0\<rparr>, g1)
        \<and> should_list (document \<lparr>queryObject = 0\<rparr> g1) =
            Some [JObj [(''match'', JObj [(''a'', JStr ''1'')])],
                  JObj [(''match'', JObj [(''a'', JStr ''1'')])]]
        \<and> must_list (document \<lparr>queryObject = 0\<rparr> g1) =
            Some [JObj [(''prefix'', JObj [(''p'', JStr ''q'')])]])"
proof -
  let ?cs = "[ShouldMatch ''a'' ''1'', MustPrefix ''p'' ''q'', ShouldMatch ''a'' ''1'']"
  let ?b = "\<lparr>queryObject = 0\<rparr>"
  let ?g0 = "\<lparr>cells = (\<lambda>_. JNull)(0 := default_document), fresh = 1\<rparr>"
  have c: "constructor None empty_heap = (?b, ?g0)"
    by (simp add: constructor_def alloc_def empty_heap_def)
  have r: "chain ?cs ?b ?g0 =
      Inr (?b, \<lparr>cells = (\<lambda>_. JNull)(0 :=
              JObj [(''query'', JObj [(''bool'', JObj
                       [(''should'', JArr [JObj [(''match'', JObj [(''a'', JStr ''1'')])],
                                           JObj [(''match'', JObj [(''a'', JStr ''1'')])]] []),
                        (''must'', JArr [JObj [(''prefix'', JObj [(''p'', JStr ''q'')])]] [])])]),
                    (''sort'', JArr [] [])]),
             fresh = 1\<rparr>)"
    by (simp add: default_document_def run_defs)
  have e: "entries F_should ?cs = [JObj [(''match'', JObj [(''a'', JStr ''1'')])],
                  JObj [(''match'', JObj [(''a'', JStr ''1'')])]]"
    "entries F_must ?cs = [JObj [(''prefix'', JObj [(''p'', JStr ''q'')])]]"
    by (simp_all add: entries_def clause_def)
  from chain_appends_in_call_order[where cs = ?cs and g = empty_heap and b = ?b and ?g0.0 = ?g0,
      THEN conjunct2, rule_format, OF c, unfolded e]
  show ?thesis using c r by blast
qed

subsection \<open>C3: the wildcard wrapping\<close>

text \<open>
  C3. \<^verbatim>\<open>shouldWildcard(k, v)\<close> appends to \<^verbatim>\<open>should\<close>, and \<^verbatim>\<open>mustWildcard(k, v)\<close>
  to \<^verbatim>\<open>must\<close>, the clause \<^verbatim>\<open>{wildcard: {k: "*" + v + "*"}}\<close>: the stored value is
  the argument between two asterisks, whatever the argument is, so a value that
  carries asterisks already ends with doubled ones.
\<close>

theorem wildcard_wraps_value:
  "(should_list (document this h) = Some xs \<longrightarrow>
      (\<exists>h'. shouldWildcard k v this h = Inr (this, h')
         \<and> should_list (document this h') =
             Some (xs @ [JObj [(''wildcard'', JObj [(k, JStr (''*'' @ v @ ''*''))])]])))
   \<and> (must_list (document this h) = Some ys \<longrightarrow>
      (\<exists>h'. mustWildcard k v this h = Inr (this, h')
         \<and> must_list (document this h') =
             Some (ys @ [JObj [(''wildcard'', JObj [(k, JStr (''*'' @ v @ ''*''))])]])))"
  using invoke_appends[of "ShouldWildcard k v" this h xs]
    invoke_appends[of "MustWildcard k v" this h ys]
  by (simp add: should_list_def must_list_def clause_def)

text \<open>The value \<^verbatim>\<open>*x*\<close> is stored as \<^verbatim>\<open>**x**\<close>, the value \<^verbatim>\<open>x\<close> as \<^verbatim>\<open>*x*\<close>.\<close>

theorem wildcard_wraps_value_witness:
  "should_list (document \<lparr>queryObject = 0\<rparr> \<lparr>cells = (\<lambda>_. default_document), fresh = 1\<rparr>) = Some []
   \<and> must_list (document \<lparr>queryObject = 0\<rparr> \<lparr>cells = (\<lambda>_. default_document), fresh = 1\<rparr>) = Some []
   \<and> (\<exists>h'. shouldWildcard ''a'' ''*x*'' \<lparr>queryObject = 0\<rparr>
              \<lparr>cells = (\<lambda>_. default_document), fresh = 1\<rparr> = Inr (\<lparr>queryObject = 0\<rparr>, h')
         \<and> should_list (document \<lparr>queryObject = 0\<rparr> h') =
             Some [JObj [(''wildcard'', JObj [(''a'', JStr ''**x**'')])]])
   \<and> (\<exists>h'. mustWildcard ''a'' ''x'' \<lparr>queryObject = 0\<rparr>
              \<lparr>cells = (\<lambda>_. default_document), fresh = 1\<rparr> = Inr (\<lparr>queryObject = 0\<rparr>, h')
         \<and> must_list (document \<lparr>queryObject = 0\<rparr> h') =
             Some [JObj [(''wildcard'', JObj [(''a'', JStr ''*x*'')])]])"
proof -
  let ?b = "\<lparr>queryObject = 0\<rparr>"
  let ?h = "\<lparr>cells = (\<lambda>_. default_document), fresh = 1\<rparr>"
  have s: "should_list (document ?b ?h) = Some []" and m: "must_list (document ?b ?h) = Some []"
    by (simp_all add: document_def default_lists)
  from wildcard_wraps_value[of ?b ?h "[]" "''a''" "''*x*''" "[]", THEN conjunct1, rule_format, OF s]
    wildcard_wraps_value[of ?b ?h "[]" "''a''" "''x''" "[]", THEN conjunct2, rule_format, OF m]
    s m
  show ?thesis by simp
qed

subsection \<open>C4: the setters overwrite\<close>

text \<open>
  C4. \<^verbatim>\<open>minimumShouldMatch\<close>, \<^verbatim>\<open>size\<close> and \<^verbatim>\<open>from\<close> assign: when one of them has
  been called with \<open>a\<close>, calling it again with \<open>b\<close> returns, leaves exactly the
  state that the call with \<open>b\<close> alone would have left, and the field
  (\<^verbatim>\<open>query.bool.minimum_should_match\<close>, \<^verbatim>\<open>size\<close>, \<^verbatim>\<open>from\<close>) holds \<open>b\<close>. This is
  so for all integers \<open>a\<close> and \<open>b\<close>: no bound is checked.
\<close>

theorem setters_overwrite:
  "(minimumShouldMatch a this h = Inr (this1, h1) \<longrightarrow>
      minimumShouldMatch b this1 h1 = minimumShouldMatch b this h
      \<and> (\<exists>h2. minimumShouldMatch b this1 h1 = Inr (this, h2)
            \<and> at [''query'', ''bool'', ''minimum_should_match''] (document this h2) = Some (JNum b)))
   \<and> (size_of (Some a) this h = Inr (this1, h1) \<longrightarrow>
      size_of (Some b) this1 h1 = size_of (Some b) this h
      \<and> (\<exists>h2. size_of (Some b) this1 h1 = Inr (this, h2)
            \<and> at [''size''] (document this h2) = Some (JNum b)))
   \<and> (from_offset (Some a) this h = Inr (this1, h1) \<longrightarrow>
      from_offset (Some b) this1 h1 = from_offset (Some b) this h
      \<and> (\<exists>h2. from_offset (Some b) this1 h1 = Inr (this, h2)
            \<and> at [''from''] (document this h2) = Some (JNum b)))"
proof (intro conjI impI)
  assume m: "minimumShouldMatch a this h = Inr (this1, h1)"
  then have m': "mutate (update_at [''query'', ''bool''] (js_set ''minimum_should_match'' (JNum a)))
      this h = Inr (this1, h1)" by (simp add: minimumShouldMatch_def)
  from set_then_set[OF m', of "JNum b"]
  show e: "minimumShouldMatch b this1 h1 = minimumShouldMatch b this h"
    by (simp add: minimumShouldMatch_def)
  from set_then_set_ok[OF m', of "JNum b"] e
  show "\<exists>h2. minimumShouldMatch b this1 h1 = Inr (this, h2)
      \<and> at [''query'', ''bool'', ''minimum_should_match''] (document this h2) = Some (JNum b)"
    by (simp add: minimumShouldMatch_def)
next
  assume m: "size_of (Some a) this h = Inr (this1, h1)"
  then have m': "mutate (update_at [] (js_set ''size'' (JNum a))) this h = Inr (this1, h1)"
    by (simp add: size_of_def update_at_Nil)
  from set_then_set[OF m', of "JNum b"]
  show e: "size_of (Some b) this1 h1 = size_of (Some b) this h"
    by (simp add: size_of_def update_at_Nil)
  from set_then_set_ok[OF m', of "JNum b"] e
  show "\<exists>h2. size_of (Some b) this1 h1 = Inr (this, h2)
      \<and> at [''size''] (document this h2) = Some (JNum b)"
    by (simp add: size_of_def update_at_Nil)
next
  assume m: "from_offset (Some a) this h = Inr (this1, h1)"
  then have m': "mutate (update_at [] (js_set ''from'' (JNum a))) this h = Inr (this1, h1)"
    by (simp add: from_offset_def update_at_Nil)
  from set_then_set[OF m', of "JNum b"]
  show e: "from_offset (Some b) this1 h1 = from_offset (Some b) this h"
    by (simp add: from_offset_def update_at_Nil)
  from set_then_set_ok[OF m', of "JNum b"] e
  show "\<exists>h2. from_offset (Some b) this1 h1 = Inr (this, h2)
      \<and> at [''from''] (document this h2) = Some (JNum b)"
    by (simp add: from_offset_def update_at_Nil)
qed

text \<open>Negative values and zero pass: \<open>-1\<close> then \<open>0\<close>, \<open>5\<close> then \<open>-7\<close>, \<open>10\<close> then \<open>-2\<close>.\<close>

theorem setters_overwrite_witness:
  "minimumShouldMatch (- 1) \<lparr>queryObject = 0\<rparr> \<lparr>cells = (\<lambda>_. default_document), fresh = 1\<rparr> =
     Inr (\<lparr>queryObject = 0\<rparr>,
          \<lparr>cells = (\<lambda>_. default_document)(0 :=
             JObj [(''query'', JObj [(''bool'', JObj [(''should'', JArr [] []), (''must'', JArr [] []),
                      (''minimum_should_match'', JNum (- 1))])]),
                   (''sort'', JArr [] [])]), fresh = 1\<rparr>)
   \<and> minimumShouldMatch 0 \<lparr>queryObject = 0\<rparr>
        \<lparr>cells = (\<lambda>_. default_document)(0 :=
             JObj [(''query'', JObj [(''bool'', JObj [(''should'', JArr [] []), (''must'', JArr [] []),
                      (''minimum_should_match'', JNum (- 1))])]),
                   (''sort'', JArr [] [])]), fresh = 1\<rparr> =
     Inr (\<lparr>queryObject = 0\<rparr>,
          \<lparr>cells = (\<lambda>_. default_document)(0 :=
             JObj [(''query'', JObj [(''bool'', JObj [(''should'', JArr [] []), (''must'', JArr [] []),
                      (''minimum_should_match'', JNum 0)])]),
                   (''sort'', JArr [] [])]), fresh = 1\<rparr>)
   \<and> size_of (Some 5) \<lparr>queryObject = 0\<rparr> \<lparr>cells = (\<lambda>_. JObj []), fresh = 1\<rparr> =
     Inr (\<lparr>queryObject = 0\<rparr>, \<lparr>cells = (\<lambda>_. JObj [])(0 := JObj [(''size'', JNum 5)]), fresh = 1\<rparr>)
   \<and> size_of (Some (- 7)) \<lparr>queryObject = 0\<rparr>
        \<lparr>cells = (\<lambda>_. JObj [])(0 := JObj [(''size'', JNum 5)]), fresh = 1\<rparr> =
     Inr (\<lparr>queryObject = 0\<rparr>, \<lparr>cells = (\<lambda>_. JObj [])(0 := JObj [(''size'', JNum (- 7))]), fresh = 1\<rparr>)
   \<and> from_offset (Some 10) \<lparr>queryObject = 0\<rparr> \<lparr>cells = (\<lambda>_. JObj []), fresh = 1\<rparr> =
     Inr (\<lparr>queryObject = 0\<rparr>, \<lparr>cells = (\<lambda>_. JObj [])(0 := JObj [(''from'', JNum 10)]), fresh = 1\<rparr>)
   \<and> from_offset (Some (- 2)) \<lparr>queryObject = 0\<rparr>
        \<lparr>cells = (\<lambda>_. JObj [])(0 := JObj [(''from'', JNum 10)]), fresh = 1\<rparr> =
     Inr (\<lparr>queryObject = 0\<rparr>, \<lparr>cells = (\<lambda>_. JObj [])(0 := JObj [(''from'', JNum (- 2))]), fresh = 1\<rparr>)"
proof -
  let ?b = "\<lparr>queryObject = 0\<rparr>"
  let ?h = "\<lparr>cells = (\<lambda>_. default_document), fresh = 1\<rparr>"
  let ?e = "\<lparr>cells = (\<lambda>_. JObj []), fresh = 1\<rparr>"
  let ?h1 = "\<lparr>cells = (\<lambda>_. default_document)(0 :=
             JObj [(''query'', JObj [(''bool'', JObj [(''should'', JArr [] []), (''must'', JArr [] []),
                      (''minimum_should_match'', JNum (- 1))])]),
                   (''sort'', JArr [] [])]), fresh = 1\<rparr>"
  let ?s1 = "\<lparr>cells = (\<lambda>_. JObj [])(0 := JObj [(''size'', JNum 5)]), fresh = 1\<rparr>"
  let ?f1 = "\<lparr>cells = (\<lambda>_. JObj [])(0 := JObj [(''from'', JNum 10)]), fresh = 1\<rparr>"
  have m: "minimumShouldMatch (- 1) ?b ?h = Inr (?b, ?h1)"
    by (simp add: run_defs default_document_def)
  have s: "size_of (Some 5) ?b ?e = Inr (?b, ?s1)"
    by (simp add: run_defs)
  have f: "from_offset (Some 10) ?b ?e = Inr (?b, ?f1)"
    by (simp add: run_defs)
  note t = setters_overwrite
  from t[of "- 1" ?b ?h ?b ?h1 0, THEN conjunct1, rule_format, OF m, THEN conjunct1]
    t[of 5 ?b ?e ?b ?s1 "- 7", THEN conjunct2, THEN conjunct1, rule_format, OF s, THEN conjunct1]
    t[of 10 ?b ?e ?b ?f1 "- 2", THEN conjunct2, THEN conjunct2, rule_format, OF f, THEN conjunct1]
    m s f
  show ?thesis by (simp add: run_defs default_document_def)
qed

subsection \<open>C5: sort entries\<close>

text \<open>
  C5. \<^verbatim>\<open>sort(attribute)\<close> appends \<^verbatim>\<open>{attribute: {order: "desc"}}\<close> to the sort
  list and \<^verbatim>\<open>sort(attribute, "asc")\<close> appends \<^verbatim>\<open>{attribute: {order: "asc"}}\<close>;
  two sort calls in a row leave two entries behind the old ones, in call order,
  whether their attributes differ or not.
\<close>

theorem sort_appends_entry:
  "sort_list (document this h) = Some zs \<longrightarrow>
     (\<exists>h'. sort_by a None this h = Inr (this, h')
        \<and> sort_list (document this h') =
            Some (zs @ [JObj [(a, JObj [(''order'', JStr ''desc'')])]]))
   \<and> (\<exists>h'. sort_by a (Some asc) this h = Inr (this, h')
        \<and> sort_list (document this h') =
            Some (zs @ [JObj [(a, JObj [(''order'', JStr ''asc'')])]]))
   \<and> (\<exists>h1 h2. sort_by a d this h = Inr (this, h1) \<and> sort_by a' d' this h1 = Inr (this, h2)
        \<and> sort_list (document this h2) =
            Some (zs @ [JObj [(a, JObj [(''order'',
                           JStr (direction_string (case d of None \<Rightarrow> desc | Some x \<Rightarrow> x)))])],
                        JObj [(a', JObj [(''order'',
                           JStr (direction_string (case d' of None \<Rightarrow> desc | Some x \<Rightarrow> x)))])]]))"
proof (intro impI conjI)
  assume z: "sort_list (document this h) = Some zs"
  have p: "payload (Sort b e) =
      JObj [(b, JObj [(''order'', JStr (direction_string (case e of None \<Rightarrow> desc | Some x \<Rightarrow> x)))])]"
    for b e by (cases e; cases "the e") simp_all
  from invoke_appends[of "Sort a None" this h zs] z
  show "\<exists>h'. sort_by a None this h = Inr (this, h')
        \<and> sort_list (document this h') =
            Some (zs @ [JObj [(a, JObj [(''order'', JStr ''desc'')])]])"
    by (simp add: sort_list_def)
  from invoke_appends[of "Sort a (Some asc)" this h zs] z
  show "\<exists>h'. sort_by a (Some asc) this h = Inr (this, h')
        \<and> sort_list (document this h') =
            Some (zs @ [JObj [(a, JObj [(''order'', JStr ''asc'')])]])"
    by (simp add: sort_list_def)
  from invoke_appends[of "Sort a d" this h zs] z obtain h1 where
    1: "sort_by a d this h = Inr (this, h1)"
    and l1: "sort_list (document this h1) = Some (zs @ [payload (Sort a d)])"
    by (auto simp: sort_list_def)
  from invoke_appends[of "Sort a' d'" this h1 "zs @ [payload (Sort a d)]"] l1 obtain h2 where
    2: "sort_by a' d' this h1 = Inr (this, h2)"
    and l2: "sort_list (document this h2) = Some (zs @ [payload (Sort a d), payload (Sort a' d')])"
    by (auto simp: sort_list_def)
  from 1 2 l2 show "\<exists>h1 h2. sort_by a d this h = Inr (this, h1) \<and> sort_by a' d' this h1 = Inr (this, h2)
        \<and> sort_list (document this h2) =
            Some (zs @ [JObj [(a, JObj [(''order'',
                           JStr (direction_string (case d of None \<Rightarrow> desc | Some x \<Rightarrow> x)))])],
                        JObj [(a', JObj [(''order'',
                           JStr (direction_string (case d' of None \<Rightarrow> desc | Some x \<Rightarrow> x)))])]])"
    unfolding p by blast
qed

text \<open>Two calls with the same attribute: two entries.\<close>

theorem sort_appends_entry_witness:
  "sort_list (document \<lparr>queryObject = 0\<rparr> \<lparr>cells = (\<lambda>_. default_document), fresh = 1\<rparr>) = Some []
   \<and> (\<exists>h1 h2. sort_by ''rank'' None \<lparr>queryObject = 0\<rparr>
                 \<lparr>cells = (\<lambda>_. default_document), fresh = 1\<rparr> = Inr (\<lparr>queryObject = 0\<rparr>, h1)
        \<and> sort_by ''rank'' (Some asc) \<lparr>queryObject = 0\<rparr> h1 = Inr (\<lparr>queryObject = 0\<rparr>, h2)
        \<and> sort_list (document \<lparr>queryObject = 0\<rparr> h2) =
            Some [JObj [(''rank'', JObj [(''order'', JStr ''desc'')])],
                  JObj [(''rank'', JObj [(''order'', JStr ''asc'')])]])"
proof -
  let ?b = "\<lparr>queryObject = 0\<rparr>"
  let ?h = "\<lparr>cells = (\<lambda>_. default_document), fresh = 1\<rparr>"
  have z: "sort_list (document ?b ?h) = Some []"
    by (simp add: document_def default_lists)
  from sort_appends_entry[of ?b ?h "[]" "''rank''" None "''rank''" "Some asc",
      rule_format, OF z, THEN conjunct2, THEN conjunct2] z
  show ?thesis by simp
qed

subsection \<open>C6: the nested clause of \<^verbatim>\<open>mustShouldMatch\<close>\<close>

text \<open>
  C6. \<^verbatim>\<open>mustShouldMatch(terms)\<close> appends exactly one element to \<^verbatim>\<open>must\<close>, the
  clause \<^verbatim>\<open>{bool: {should: [...]}}\<close> whose list has one \<^verbatim>\<open>{match: {key: value}}\<close>
  per pair of \<^verbatim>\<open>terms\<close>, in the order of the pairs; for no terms the list of the
  appended clause is empty.
\<close>

theorem mustShouldMatch_appends_one_nested_clause:
  "must_list (document this h) = Some ys \<longrightarrow>
     (\<exists>h'. mustShouldMatch ts this h = Inr (this, h')
        \<and> must_list (document this h') =
            Some (ys @ [JObj [(''bool'', JObj [(''should'',
                   JArr (map (\<lambda>(k, v). JObj [(''match'', JObj [(k, JStr v)])]) ts) [])])]]))
   \<and> (\<exists>h'. mustShouldMatch [] this h = Inr (this, h')
        \<and> must_list (document this h') =
            Some (ys @ [JObj [(''bool'', JObj [(''should'', JArr [] [])])]]))"
  using invoke_appends[of "MustShouldMatch ts" this h ys]
    invoke_appends[of "MustShouldMatch []" this h ys]
  by (simp add: must_list_def clause_def case_prod_unfold)

text \<open>The two terms of the specification's scenario.\<close>

theorem mustShouldMatch_appends_one_nested_clause_witness:
  "must_list (document \<lparr>queryObject = 0\<rparr> \<lparr>cells = (\<lambda>_. default_document), fresh = 1\<rparr>) = Some []
   \<and> (\<exists>h'. mustShouldMatch [(''a'', ''1''), (''b'', ''2'')] \<lparr>queryObject = 0\<rparr>
             \<lparr>cells = (\<lambda>_. default_document), fresh = 1\<rparr> = Inr (\<lparr>queryObject = 0\<rparr>, h')
        \<and> must_list (document \<lparr>queryObject = 0\<rparr> h') =
            Some [JObj [(''bool'', JObj [(''should'',
                   JArr [JObj [(''match'', JObj [(''a'', JStr ''1'')])],
                         JObj [(''match'', JObj [(''b'', JStr ''2'')])]] [])])]])"
proof -
  let ?b = "\<lparr>queryObject = 0\<rparr>"
  let ?h = "\<lparr>cells = (\<lambda>_. default_document), fresh = 1\<rparr>"
  have m: "must_list (document ?b ?h) = Some []"
    by (simp add: document_def default_lists)
  from mustShouldMatch_appends_one_nested_clause[of ?b ?h "[]" "[(''a'', ''1''), (''b'', ''2'')]",
      rule_format, OF m, THEN conjunct1] m
  show ?thesis by simp
qed

subsection \<open>C7: \<^verbatim>\<open>toString\<close>\<close>

text \<open>
  C7. \<^verbatim>\<open>toString()\<close> returns the JSON text of the document as the store holds it
  when it is called; nothing is cached.
  \<^item> For \<^verbatim>\<open>new QueryBuilder()\<close> the text is exactly
    \<^verbatim>\<open>{"query":{"bool":{"should":[],"must":[]}},"sort":[]}\<close>, and that document is
    JSON data of the standard shape.
  \<^item> On a document that is JSON data the text is a JSON text of that document:
    read by the JSON grammar it gives the document back.
  \<^item> Hence the texts of two builders are equal exactly when their documents are.
  \<^item> On a document that is JSON data of the standard shape every call, with a safe
    integer where it takes a number, returns; the document is then the effect of the
    call on the document before, and again JSON data of the standard shape; the text
    read after the call equals the text read before it exactly when the call has left
    the document as it was, and differs from it after every appending call.
  \<^item> The same holds of every chain of such calls: the texts read before and after
    the chain are equal exactly when the documents are, and differ whenever the chain
    has an appending call. So the texts read at two points of a chain on a fresh
    builder are those of the documents at these points.
\<close>

theorem toString_serialises_live_document:
  \<open>(constructor None g = (b, g0) \<longrightarrow>
      toString b g0 = ''{"query":{"bool":{"should":[],"must":[]}},"sort":[]}''
      \<and> json_data (document b g0) \<and> standard (document b g0))
   \<and> (json_data (document this h) \<longrightarrow> parse_json (toString this h) = Some (document this h))
   \<and> (json_data (document this h) \<and> json_data (document that k) \<longrightarrow>
        (toString this h = toString that k \<longleftrightarrow> document this h = document that k))
   \<and> (json_data (document this h) \<and> standard (document this h) \<and> safe_call c \<longrightarrow>
        (\<exists>h'. invoke c this h = Inr (this, h')
           \<and> effect c (document this h) = Inr (document this h')
           \<and> json_data (document this h') \<and> standard (document this h')
           \<and> (toString this h' = toString this h \<longleftrightarrow> document this h' = document this h)
           \<and> (is_list_field (field_of c) \<longrightarrow> toString this h' \<noteq> toString this h)))
   \<and> (json_data (document this h) \<and> standard (document this h) \<and> list_all safe_call cs \<longrightarrow>
        (\<exists>h'. chain cs this h = Inr (this, h')
           \<and> json_data (document this h') \<and> standard (document this h')
           \<and> (toString this h' = toString this h \<longleftrightarrow> document this h' = document this h)
           \<and> ((\<exists>e \<in> set cs. is_list_field (field_of e)) \<longrightarrow>
                 toString this h' \<noteq> toString this h)))\<close>
proof -
  have 1: \<open>constructor None g = (b, g0) \<longrightarrow>
      toString b g0 = ''{"query":{"bool":{"should":[],"must":[]}},"sort":[]}''
      \<and> json_data (document b g0) \<and> standard (document b g0)\<close>
    using constructor_None(1)[of g b g0] data_default standard_default
    by (auto simp: toString_def document_def stringify_default)
  have 2: "json_data (document this h) \<longrightarrow>
      parse_json (toString this h) = Some (document this h)"
    using parse_json_stringify[of "document this h"] by (simp add: toString_def document_def)
  have 3: "json_data (document this h) \<and> json_data (document that k) \<longrightarrow>
        (toString this h = toString that k \<longleftrightarrow> document this h = document that k)"
    using stringify_inj[of "document this h" "document that k"]
    by (auto simp: toString_def document_def)
  have 4: "json_data (document this h) \<and> standard (document this h) \<and> safe_call c \<longrightarrow>
        (\<exists>h'. invoke c this h = Inr (this, h')
           \<and> effect c (document this h) = Inr (document this h')
           \<and> json_data (document this h') \<and> standard (document this h')
           \<and> (toString this h' = toString this h \<longleftrightarrow> document this h' = document this h)
           \<and> (is_list_field (field_of c) \<longrightarrow> toString this h' \<noteq> toString this h))"
  proof
    assume a: "json_data (document this h) \<and> standard (document this h) \<and> safe_call c"
    then have j: "json_data (document this h)" and s: "standard (document this h)"
      and sc: "list_all safe_call [c]" by simp_all
    from chain_standard_data[OF j s sc] obtain h' where
      c: "chain [c] this h = Inr (this, h')"
      and r: "json_data (document this h')" "standard (document this h')"
        "toString this h' = toString this h \<longleftrightarrow> document this h' = document this h"
        "(\<exists>e \<in> set [c]. is_list_field (field_of e)) \<longrightarrow> toString this h' \<noteq> toString this h"
      by blast
    from c have i: "invoke c this h = Inr (this, h')"
      by (auto split: sum.splits)
    from invoke_Inr(2)[OF i] have "effect c (document this h) = Inr (document this h')" .
    with i r show "\<exists>h'. invoke c this h = Inr (this, h')
           \<and> effect c (document this h) = Inr (document this h')
           \<and> json_data (document this h') \<and> standard (document this h')
           \<and> (toString this h' = toString this h \<longleftrightarrow> document this h' = document this h)
           \<and> (is_list_field (field_of c) \<longrightarrow> toString this h' \<noteq> toString this h)"
      by auto
  qed
  have 5: "json_data (document this h) \<and> standard (document this h) \<and> list_all safe_call cs \<longrightarrow>
        (\<exists>h'. chain cs this h = Inr (this, h')
           \<and> json_data (document this h') \<and> standard (document this h')
           \<and> (toString this h' = toString this h \<longleftrightarrow> document this h' = document this h)
           \<and> ((\<exists>e \<in> set cs. is_list_field (field_of e)) \<longrightarrow>
                 toString this h' \<noteq> toString this h))"
    using chain_standard_data[of this h cs] by blast
  from 1 2 3 4 5 show ?thesis by (intro conjI)
qed

text \<open>
  A fresh builder prints the default document. After \<^verbatim>\<open>shouldMatch\<close> with a
  quotation mark in the key and a backslash, a line feed and the code unit 1 in the
  value, \<^verbatim>\<open>size(120)\<close> and \<^verbatim>\<open>minimumShouldMatch(-3)\<close> it prints the document
  with the clause, the two numbers and the escapes; this text differs from the first,
  and read as a JSON text it gives the document back.
\<close>

theorem toString_serialises_live_document_witness:
  \<open>constructor None empty_heap =
     (\<lparr>queryObject = 0\<rparr>, \<lparr>cells = (\<lambda>_. JNull)(0 := default_document), fresh = 1\<rparr>)
   \<and> toString \<lparr>queryObject = 0\<rparr> \<lparr>cells = (\<lambda>_. JNull)(0 := default_document), fresh = 1\<rparr> =
       ''{"query":{"bool":{"should":[],"must":[]}},"sort":[]}''
   \<and> list_all safe_call
        [ShouldMatch [CHR ''q'', CHR 0x22] [CHR 0x5C, CHR 0x0A, CHR 0x01],
         Size (Some 120), MinimumShouldMatch (- 3)]
   \<and> chain [ShouldMatch [CHR ''q'', CHR 0x22] [CHR 0x5C, CHR 0x0A, CHR 0x01],
             Size (Some 120), MinimumShouldMatch (- 3)]
        \<lparr>queryObject = 0\<rparr> \<lparr>cells = (\<lambda>_. JNull)(0 := default_document), fresh = 1\<rparr> =
      Inr (\<lparr>queryObject = 0\<rparr>, \<lparr>cells = (\<lambda>_. JNull)(0 :=
        JObj [(''query'', JObj [(''bool'', JObj
            [(''should'', JArr [JObj [(''match'',
                 JObj [([CHR ''q'', CHR 0x22], JStr [CHR 0x5C, CHR 0x0A, CHR 0x01])])]] []),
             (''must'', JArr [] []),
             (''minimum_should_match'', JNum (- 3))])]),
           (''sort'', JArr [] []), (''size'', JNum 120)]), fresh = 1\<rparr>)
   \<and> toString \<lparr>queryObject = 0\<rparr> \<lparr>cells = (\<lambda>_. JNull)(0 :=
        JObj [(''query'', JObj [(''bool'', JObj
            [(''should'', JArr [JObj [(''match'',
                 JObj [([CHR ''q'', CHR 0x22], JStr [CHR 0x5C, CHR 0x0A, CHR 0x01])])]] []),
             (''must'', JArr [] []),
             (''minimum_should_match'', JNum (- 3))])]),
           (''sort'', JArr [] []), (''size'', JNum 120)]), fresh = 1\<rparr> =
       ''{"query":{"bool":{"should":[{"match":{"q'' @ [CHR 0x5C, CHR 0x22] @ ''":"''
         @ [CHR 0x5C, CHR 0x5C, CHR 0x5C, CHR ''n'', CHR 0x5C] @ ''u0001"}}],"must":[],''
         @ ''"minimum_should_match":-3}},"sort":[],"size":120}''
   \<and> toString \<lparr>queryObject = 0\<rparr> \<lparr>cells = (\<lambda>_. JNull)(0 := default_document), fresh = 1\<rparr>
       \<noteq> toString \<lparr>queryObject = 0\<rparr> \<lparr>cells = (\<lambda>_. JNull)(0 :=
        JObj [(''query'', JObj [(''bool'', JObj
            [(''should'', JArr [JObj [(''match'',
                 JObj [([CHR ''q'', CHR 0x22], JStr [CHR 0x5C, CHR 0x0A, CHR 0x01])])]] []),
             (''must'', JArr [] []),
             (''minimum_should_match'', JNum (- 3))])]),
           (''sort'', JArr [] []), (''size'', JNum 120)]), fresh = 1\<rparr>
   \<and> parse_json
        (''{"query":{"bool":{"should":[{"match":{"q'' @ [CHR 0x5C, CHR 0x22] @ ''":"''
         @ [CHR 0x5C, CHR 0x5C, CHR 0x5C, CHR ''n'', CHR 0x5C] @ ''u0001"}}],"must":[],''
         @ ''"minimum_should_match":-3}},"sort":[],"size":120}'') =
       Some (JObj [(''query'', JObj [(''bool'', JObj
            [(''should'', JArr [JObj [(''match'',
                 JObj [([CHR ''q'', CHR 0x22], JStr [CHR 0x5C, CHR 0x0A, CHR 0x01])])]] []),
             (''must'', JArr [] []),
             (''minimum_should_match'', JNum (- 3))])]),
           (''sort'', JArr [] []), (''size'', JNum 120)])
   \<and> toString \<lparr>queryObject = 0\<rparr>
        \<lparr>cells = (\<lambda>_. JObj [(''n'', JNull), (''t'', JArr [JBool True, JBool False, JNum (- 15)] [])]),
         fresh = 1\<rparr> = ''{"n":null,"t":[true,false,-15]}''\<close>
proof -
  let ?b = "\<lparr>queryObject = 0\<rparr>"
  let ?g0 = "\<lparr>cells = (\<lambda>_. JNull)(0 := default_document), fresh = 1\<rparr>"
  let ?ds = "[ShouldMatch [CHR ''q'', CHR 0x22] [CHR 0x5C, CHR 0x0A, CHR 0x01],
         Size (Some 120), MinimumShouldMatch (- 3)]"
  let ?d2 = "JObj [(''query'', JObj [(''bool'', JObj
            [(''should'', JArr [JObj [(''match'',
                 JObj [([CHR ''q'', CHR 0x22], JStr [CHR 0x5C, CHR 0x0A, CHR 0x01])])]] []),
             (''must'', JArr [] []),
             (''minimum_should_match'', JNum (- 3))])]),
           (''sort'', JArr [] []), (''size'', JNum 120)]"
  let ?g2 = "\<lparr>cells = (\<lambda>_. JNull)(0 := ?d2), fresh = 1\<rparr>"
  have n: "constructor None empty_heap = (?b, ?g0)"
    by (simp add: constructor_def alloc_def empty_heap_def)
  have s: "list_all safe_call ?ds" by simp
  have e: "chain ?ds ?b ?g0 = Inr (?b, ?g2)"
    by (simp add: run_defs default_document_def)
  note t = toString_serialises_live_document[where g = empty_heap and b = ?b and ?g0.0 = ?g0
      and this = ?b and h = ?g0 and cs = ?ds]
  note fresh = t[THEN conjunct1, rule_format, OF n]
  from fresh have j: "json_data (document ?b ?g0)" and st: "standard (document ?b ?g0)" by simp_all
  from t[THEN conjunct2, THEN conjunct2, THEN conjunct2, THEN conjunct2, rule_format,
      OF conjI[OF j conjI[OF st s]]]
  obtain g2 where c2: "chain ?ds ?b ?g0 = Inr (?b, g2)"
    and j2: "json_data (document ?b g2)"
    and ne: "(\<exists>e \<in> set ?ds. is_list_field (field_of e)) \<longrightarrow> toString ?b g2 \<noteq> toString ?b ?g0"
    by auto
  from c2 e have g2: "g2 = ?g2" by simp
  have "\<exists>e \<in> set ?ds. is_list_field (field_of e)" by simp
  with ne g2 have d: "toString ?b ?g0 \<noteq> toString ?b ?g2" by simp
  have x: \<open>toString ?b ?g2 =
            ''{"query":{"bool":{"should":[{"match":{"q'' @ [CHR 0x5C, CHR 0x22] @ ''":"''
              @ [CHR 0x5C, CHR 0x5C, CHR 0x5C, CHR ''n'', CHR 0x5C] @ ''u0001"}}],"must":[],''
              @ ''"minimum_should_match":-3}},"sort":[],"size":120}''\<close>
    by (simp add: toString_def quote_def quote_char_def hex_digit_def show_int_def
        show_nat.simps digit_chars)
  from j2 g2 have j2': "json_data (document ?b ?g2)" by simp
  from toString_serialises_live_document[where this = ?b and h = ?g2,
      THEN conjunct2, THEN conjunct1, rule_format, OF j2']
  have "parse_json (toString ?b ?g2) = Some (document ?b ?g2)" .
  then have p: \<open>parse_json
        (''{"query":{"bool":{"should":[{"match":{"q'' @ [CHR 0x5C, CHR 0x22] @ ''":"''
         @ [CHR 0x5C, CHR 0x5C, CHR 0x5C, CHR ''n'', CHR 0x5C] @ ''u0001"}}],"must":[],''
         @ ''"minimum_should_match":-3}},"sort":[],"size":120}'') = Some ?d2\<close>
    unfolding x by (simp add: document_def)
  have y: \<open>toString ?b
        \<lparr>cells = (\<lambda>_. JObj [(''n'', JNull), (''t'', JArr [JBool True, JBool False, JNum (- 15)] [])]),
         fresh = 1\<rparr> = ''{"n":null,"t":[true,false,-15]}''\<close>
    by (simp add: toString_def quote_def quote_char_def show_int_def show_nat.simps digit_chars)
  from n fresh s e x d p y show ?thesis by blast
qed

subsection \<open>C8: \<^verbatim>\<open>build\<close> returns the document itself\<close>

text \<open>
  C8. \<^verbatim>\<open>build()\<close> returns the reference the builder holds and leaves the store as it
  is; it cannot fail. After a mutator call that returns, \<^verbatim>\<open>build()\<close> returns the
  same reference, and the object behind the reference returned before the call is the
  mutated document: its list has the new element (so it is not the object as it was),
  or its field the new value.
\<close>

theorem build_returns_live_reference:
  "build this h = (queryObject this, h)
   \<and> (invoke c this h = Inr (this', h') \<longrightarrow>
        fst (build this' h') = fst (build this h)
        \<and> effect c (cells h (fst (build this h))) = Inr (cells h' (fst (build this h)))
        \<and> (is_list_field (field_of c) \<longrightarrow>
             (\<exists>xs. list_at (path_of (field_of c)) (cells h (fst (build this h))) = Some xs
                \<and> list_at (path_of (field_of c)) (cells h' (fst (build this h))) =
                    Some (xs @ [payload c]))
             \<and> cells h' (fst (build this h)) \<noteq> cells h (fst (build this h)))
        \<and> (\<not> is_list_field (field_of c) \<longrightarrow>
             at (path_of (field_of c)) (cells h' (fst (build this h))) = Some (payload c)))"
proof (intro conjI impI)
  show "build this h = (queryObject this, h)" by (simp add: build_def)
next
  assume i: "invoke c this h = Inr (this', h')"
  have r: "fst (build this h) = queryObject this" by (simp add: build_def)
  note e = invoke_Inr(2)[OF i, unfolded document_def]
  from invoke_Inr(1)[OF i] show "fst (build this' h') = fst (build this h)"
    by (simp add: build_def)
  from e show "effect c (cells h (fst (build this h))) = Inr (cells h' (fst (build this h)))"
    by (simp add: r)
  {
    assume l: "is_list_field (field_of c)"
    from effect_list[OF l e]
    show x: "\<exists>xs. list_at (path_of (field_of c)) (cells h (fst (build this h))) = Some xs
                \<and> list_at (path_of (field_of c)) (cells h' (fst (build this h))) =
                    Some (xs @ [payload c])"
      by (simp add: r)
    then show "cells h' (fst (build this h)) \<noteq> cells h (fst (build this h))" by auto
  }
  {
    assume l: "\<not> is_list_field (field_of c)"
    from effect_set[OF l e]
    show "at (path_of (field_of c)) (cells h' (fst (build this h))) = Some (payload c)"
      by (simp add: r)
  }
qed

text \<open>The reference \<open>0\<close>, read before and after \<^verbatim>\<open>mustMatch("name", "alice")\<close>.\<close>

theorem build_returns_live_reference_witness:
  "build \<lparr>queryObject = 0\<rparr> \<lparr>cells = (\<lambda>_. default_document), fresh = 1\<rparr> =
     (0, \<lparr>cells = (\<lambda>_. default_document), fresh = 1\<rparr>)
   \<and> invoke (MustMatch ''name'' ''alice'') \<lparr>queryObject = 0\<rparr>
       \<lparr>cells = (\<lambda>_. default_document), fresh = 1\<rparr> =
     Inr (\<lparr>queryObject = 0\<rparr>,
          \<lparr>cells = (\<lambda>_. default_document)(0 :=
             JObj [(''query'', JObj [(''bool'', JObj [(''should'', JArr [] []),
                      (''must'', JArr [JObj [(''match'', JObj [(''name'', JStr ''alice'')])]] [])])]),
                   (''sort'', JArr [] [])]), fresh = 1\<rparr>)
   \<and> must_list (cells \<lparr>cells = (\<lambda>_. default_document), fresh = 1\<rparr> 0) = Some []
   \<and> must_list (cells \<lparr>cells = (\<lambda>_. default_document)(0 :=
             JObj [(''query'', JObj [(''bool'', JObj [(''should'', JArr [] []),
                      (''must'', JArr [JObj [(''match'', JObj [(''name'', JStr ''alice'')])]] [])])]),
                   (''sort'', JArr [] [])]), fresh = 1\<rparr> 0) =
       Some [JObj [(''match'', JObj [(''name'', JStr ''alice'')])]]"
proof -
  let ?b = "\<lparr>queryObject = 0\<rparr>"
  let ?h = "\<lparr>cells = (\<lambda>_. default_document), fresh = 1\<rparr>"
  let ?h' = "\<lparr>cells = (\<lambda>_. default_document)(0 :=
             JObj [(''query'', JObj [(''bool'', JObj [(''should'', JArr [] []),
                      (''must'', JArr [JObj [(''match'', JObj [(''name'', JStr ''alice'')])]] [])])]),
                   (''sort'', JArr [] [])]), fresh = 1\<rparr>"
  have i: "invoke (MustMatch ''name'' ''alice'') ?b ?h = Inr (?b, ?h')"
    by (simp add: run_defs default_document_def)
  note t = build_returns_live_reference[of ?b ?h "MustMatch ''name'' ''alice''" ?b ?h']
  have l: "is_list_field (field_of (MustMatch ''name'' ''alice''))" by simp
  from t[THEN conjunct1]
    t[THEN conjunct2, rule_format, OF i, THEN conjunct2, THEN conjunct2, THEN conjunct1,
      rule_format, OF l, THEN conjunct1] i
  show ?thesis by (simp add: must_list_def build_def default_lists[unfolded must_list_def] clause_def)
qed

subsection \<open>C9: no validation at construction\<close>

text \<open>
  C9. Constructing a builder on a supplied document returns, whatever the shape of
  the document: an object or array (any truthy value) is kept by reference and the
  store is left as it is; a falsy value is replaced by the default document. On the
  builder so constructed a call throws \<^verbatim>\<open>TypeError\<close> exactly when the structure it
  dereferences is missing from the document, and returns exactly when it is there;
  and when a structure is missing, then after any chain of calls that returned, the
  call that dereferences it throws.
\<close>

theorem construction_never_validates:
  "constructor (Some r) h = (b, h0) \<longrightarrow>
     (is_object (cells h r) \<longrightarrow> b = \<lparr>queryObject = r\<rparr> \<and> h0 = h)
     \<and> (truthy (cells h r) \<longrightarrow> b = \<lparr>queryObject = r\<rparr> \<and> h0 = h)
     \<and> (\<not> truthy (cells h r) \<longrightarrow> (b, h0) = constructor None h)
     \<and> (invoke c b h0 = Inl TypeError \<longleftrightarrow> \<not> structure_present c (document b h0))
     \<and> ((\<exists>h'. invoke c b h0 = Inr (b, h')) \<longleftrightarrow> structure_present c (document b h0))
     \<and> (chain cs b h0 = Inr (b', h1) \<and> \<not> structure_present c (document b h0)
          \<longrightarrow> chain (cs @ [c]) b h0 = Inl TypeError)"
proof (rule impI)
  assume k: "constructor (Some r) h = (b, h0)"
  have 1: "is_object (cells h r) \<longrightarrow> b = \<lparr>queryObject = r\<rparr> \<and> h0 = h"
    using k by (cases "cells h r") (simp_all add: constructor_def)
  have 2: "truthy (cells h r) \<longrightarrow> b = \<lparr>queryObject = r\<rparr> \<and> h0 = h"
    using k by (auto simp: constructor_def split: if_splits)
  have 3: "\<not> truthy (cells h r) \<longrightarrow> (b, h0) = constructor None h"
    using k by (auto simp: constructor_def split: if_splits)
  have 4: "invoke c b h0 = Inl TypeError \<longleftrightarrow> \<not> structure_present c (document b h0)"
    using effect_Inl[of c "document b h0" TypeError] by (simp add: invoke_Inl)
  have 5: "(\<exists>h'. invoke c b h0 = Inr (b, h')) \<longleftrightarrow> structure_present c (document b h0)"
  proof
    assume "\<exists>h'. invoke c b h0 = Inr (b, h')"
    then obtain h' where "invoke c b h0 = Inr (b, h')" by blast
    from invoke_Inr(2)[OF this] invoke_iff_present[of c "document b h0"]
    show "structure_present c (document b h0)" by blast
  next
    assume "structure_present c (document b h0)"
    with invoke_iff_present[of c "document b h0"] obtain d' where
      "effect c (document b h0) = Inr d'" by blast
    from invoke_ok[OF this] show "\<exists>h'. invoke c b h0 = Inr (b, h')" by blast
  qed
  have 6: "chain cs b h0 = Inr (b', h1) \<and> \<not> structure_present c (document b h0)
          \<longrightarrow> chain (cs @ [c]) b h0 = Inl TypeError"
  proof
    assume a: "chain cs b h0 = Inr (b', h1) \<and> \<not> structure_present c (document b h0)"
    with chain_present[of cs b h0 b' h1 c]
    have "b' = b" "\<not> structure_present c (document b h1)" by simp_all
    with effect_Inl[of c "document b h1" TypeError] have "invoke c b h1 = Inl TypeError"
      by (simp add: invoke_Inl)
    with a \<open>b' = b\<close> show "chain (cs @ [c]) b h0 = Inl TypeError" by (simp add: chain_snoc)
  qed
  from 1 2 3 4 5 6
  show "(is_object (cells h r) \<longrightarrow> b = \<lparr>queryObject = r\<rparr> \<and> h0 = h)
     \<and> (truthy (cells h r) \<longrightarrow> b = \<lparr>queryObject = r\<rparr> \<and> h0 = h)
     \<and> (\<not> truthy (cells h r) \<longrightarrow> (b, h0) = constructor None h)
     \<and> (invoke c b h0 = Inl TypeError \<longleftrightarrow> \<not> structure_present c (document b h0))
     \<and> ((\<exists>h'. invoke c b h0 = Inr (b, h')) \<longleftrightarrow> structure_present c (document b h0))
     \<and> (chain cs b h0 = Inr (b', h1) \<and> \<not> structure_present c (document b h0)
          \<longrightarrow> chain (cs @ [c]) b h0 = Inl TypeError)"
    by (intro conjI)
qed

text \<open>
  The supplied document \<^verbatim>\<open>{sort: []}\<close> is kept: \<^verbatim>\<open>sort\<close> and \<^verbatim>\<open>size\<close> return,
  \<^verbatim>\<open>shouldPrefix\<close> after them throws. The supplied value \<^verbatim>\<open>null\<close> is replaced by
  the default document, on which \<^verbatim>\<open>shouldPrefix\<close> returns.
\<close>

theorem construction_never_validates_witness:
  "constructor (Some 3) \<lparr>cells = (\<lambda>_. JObj [(''sort'', JArr [] [])]), fresh = 4\<rparr> =
     (\<lparr>queryObject = 3\<rparr>, \<lparr>cells = (\<lambda>_. JObj [(''sort'', JArr [] [])]), fresh = 4\<rparr>)
   \<and> chain [Sort ''x'' None, Size None] \<lparr>queryObject = 3\<rparr>
       \<lparr>cells = (\<lambda>_. JObj [(''sort'', JArr [] [])]), fresh = 4\<rparr> =
     Inr (\<lparr>queryObject = 3\<rparr>,
          \<lparr>cells = (\<lambda>_. JObj [(''sort'', JArr [] [])])(3 :=
             JObj [(''sort'', JArr [JObj [(''x'', JObj [(''order'', JStr ''desc'')])]] []),
                   (''size'', JNum 20)]), fresh = 4\<rparr>)
   \<and> \<not> structure_present (ShouldPrefix ''k'' ''v'') (JObj [(''sort'', JArr [] [])])
   \<and> chain ([Sort ''x'' None, Size None] @ [ShouldPrefix ''k'' ''v'']) \<lparr>queryObject = 3\<rparr>
       \<lparr>cells = (\<lambda>_. JObj [(''sort'', JArr [] [])]), fresh = 4\<rparr> = Inl TypeError
   \<and> constructor (Some 3) \<lparr>cells = (\<lambda>_. JNull), fresh = 4\<rparr> =
     (\<lparr>queryObject = 4\<rparr>, \<lparr>cells = (\<lambda>_. JNull)(4 := default_document), fresh = 5\<rparr>)
   \<and> (\<exists>h'. invoke (ShouldPrefix ''k'' ''v'') \<lparr>queryObject = 4\<rparr>
         \<lparr>cells = (\<lambda>_. JNull)(4 := default_document), fresh = 5\<rparr> = Inr (\<lparr>queryObject = 4\<rparr>, h'))"
proof -
  let ?b = "\<lparr>queryObject = 3\<rparr>"
  let ?h = "\<lparr>cells = (\<lambda>_. JObj [(''sort'', JArr [] [])]), fresh = 4\<rparr>"
  let ?h1 = "\<lparr>cells = (\<lambda>_. JObj [(''sort'', JArr [] [])])(3 :=
             JObj [(''sort'', JArr [JObj [(''x'', JObj [(''order'', JStr ''desc'')])]] []),
                   (''size'', JNum 20)]), fresh = 4\<rparr>"
  let ?c = "ShouldPrefix ''k'' ''v''"
  have k: "constructor (Some 3) ?h = (?b, ?h)"
    by (simp add: constructor_def)
  have c: "chain [Sort ''x'' None, Size None] ?b ?h = Inr (?b, ?h1)"
    by (simp add: run_defs)
  have n: "\<not> structure_present ?c (document ?b ?h)"
    by (simp add: structure_present_def list_at_def document_def)
  note t = construction_never_validates[of 3 ?h ?b ?h ?c "[Sort ''x'' None, Size None]" ?b ?h1,
      rule_format, OF k]
  note f = t[THEN conjunct2, THEN conjunct2, THEN conjunct2, THEN conjunct2, THEN conjunct2,
      rule_format, OF conjI, OF c n]
  let ?e = "\<lparr>cells = (\<lambda>_. JNull), fresh = 4\<rparr>"
  let ?b' = "\<lparr>queryObject = 4\<rparr>"
  let ?e' = "\<lparr>cells = (\<lambda>_. JNull)(4 := default_document), fresh = 5\<rparr>"
  have k': "constructor (Some 3) ?e = (?b', ?e')"
    by (simp add: constructor_def alloc_def)
  have p: "structure_present ?c (document ?b' ?e')"
    by (simp add: structure_present_def document_def default_lists[unfolded should_list_def])
  note t' = construction_never_validates[of 3 ?e ?b' ?e' ?c, rule_format, OF k']
  note g = t'[THEN conjunct2, THEN conjunct2, THEN conjunct2, THEN conjunct2, THEN conjunct1,
      THEN iffD2, OF p]
  from k c n f k' g show ?thesis by (simp add: document_def)
qed

subsection \<open>C10: the frame of a call\<close>

text \<open>
  C10, as the specification states it, fails on a supplied document in which one
  array is the value of \<^verbatim>\<open>query.bool.should\<close>, of \<^verbatim>\<open>query.bool.must\<close> and of
  \<^verbatim>\<open>sort\<close>: \<^verbatim>\<open>shouldTerm\<close> appends to that array, and the must list and the sort
  list, empty before the call, hold the new clause after it.
\<close>

theorem shared_array_counterexample:
  "invoke_in_graph (ShouldTerm ''k'' ''v'') \<lparr>queryObject = 0\<rparr>
     \<lparr>objects = (\<lambda>_. Obj [])
        (0 := Obj [(''query'', VRef 1), (''sort'', VRef 3)],
         1 := Obj [(''bool'', VRef 2)],
         2 := Obj [(''should'', VRef 3), (''must'', VRef 3)],
         3 := Arr [] []),
      next_free = 4\<rparr> =
   Inr (\<lparr>queryObject = 0\<rparr>,
     \<lparr>objects = (\<lambda>_. Obj [])
        (0 := Obj [(''query'', VRef 1), (''sort'', VRef 3)],
         1 := Obj [(''bool'', VRef 2)],
         2 := Obj [(''should'', VRef 3), (''must'', VRef 3)],
         3 := Arr [VRef 5] [],
         4 := Obj [(''k'', VStr ''v'')],
         5 := Obj [(''term'', VRef 4)]),
      next_free = 6\<rparr>)
   \<and> list_of \<lparr>objects = (\<lambda>_. Obj [])
        (0 := Obj [(''query'', VRef 1), (''sort'', VRef 3)],
         1 := Obj [(''bool'', VRef 2)],
         2 := Obj [(''should'', VRef 3), (''must'', VRef 3)],
         3 := Arr [] []),
      next_free = 4\<rparr> \<lparr>queryObject = 0\<rparr> F_must = Some []
   \<and> list_of \<lparr>objects = (\<lambda>_. Obj [])
        (0 := Obj [(''query'', VRef 1), (''sort'', VRef 3)],
         1 := Obj [(''bool'', VRef 2)],
         2 := Obj [(''should'', VRef 3), (''must'', VRef 3)],
         3 := Arr [VRef 5] [],
         4 := Obj [(''k'', VStr ''v'')],
         5 := Obj [(''term'', VRef 4)]),
      next_free = 6\<rparr> \<lparr>queryObject = 0\<rparr> F_must = Some [VRef 5]
   \<and> list_of \<lparr>objects = (\<lambda>_. Obj [])
        (0 := Obj [(''query'', VRef 1), (''sort'', VRef 3)],
         1 := Obj [(''bool'', VRef 2)],
         2 := Obj [(''should'', VRef 3), (''must'', VRef 3)],
         3 := Arr [] []),
      next_free = 4\<rparr> \<lparr>queryObject = 0\<rparr> F_sort = Some []
   \<and> list_of \<lparr>objects = (\<lambda>_. Obj [])
        (0 := Obj [(''query'', VRef 1), (''sort'', VRef 3)],
         1 := Obj [(''bool'', VRef 2)],
         2 := Obj [(''should'', VRef 3), (''must'', VRef 3)],
         3 := Arr [VRef 5] [],
         4 := Obj [(''k'', VStr ''v'')],
         5 := Obj [(''term'', VRef 4)]),
      next_free = 6\<rparr> \<lparr>queryObject = 0\<rparr> F_sort = Some [VRef 5]"
  by (simp add: graph_defs fun_upd_twist)

text \<open>
  C10, amended. A mutator call that returns, on a well-formed store, returns its
  builder and changes one object only, the holder of its designated field: every
  other object allocated before the call is as it was.
  \<^item> A call that appends changes the array of its list, which gains exactly one
    element at its end, a reference to an object the call has created.
  \<^item> A setter changes the object that has its field: the property of that name gets
    the number, the other properties and the elements stay.
  \<^item> Every other field holds the same value or reference after the call and has the
    same holder, so \<^verbatim>\<open>size\<close>, \<^verbatim>\<open>from\<close> and \<^verbatim>\<open>minimum_should_match\<close> are altered
    or removed by no call but their own setter.
  \<^item> Every other list has the same elements, provided the call is a setter or the
    list is not the very array the call appends to; the three lists of a document the
    constructor creates are three arrays.
\<close>

theorem mutators_change_only_their_target:
  "well_formed g \<and> queryObject this < next_free g \<and> invoke_in_graph c this g = Inr (this', g')
   \<longrightarrow>
     this' = this
     \<and> (\<exists>t. holder g this (field_of c) = Some t \<and> t < next_free g
          \<and> (\<forall>a. a < next_free g \<and> a \<noteq> t \<longrightarrow> objects g' a = objects g a)
          \<and> (is_list_field (field_of c) \<longrightarrow>
               (\<exists>xs ps b. objects g t = Arr xs ps \<and> objects g' t = Arr (xs @ [VRef b]) ps
                  \<and> next_free g \<le> b))
          \<and> (\<not> is_list_field (field_of c) \<longrightarrow>
               elements (objects g' t) = elements (objects g t)
               \<and> (\<exists>n. payload c = JNum n
                    \<and> own (objects g' t) =
                        AList.update (last (path_of (field_of c))) (VNum n) (own (objects g t))))
          \<and> (\<forall>f. f \<noteq> field_of c \<longrightarrow>
               field_value g' this f = field_value g this f
               \<and> holder g' this f = holder g this f
               \<and> (is_list_field f \<and> (is_list_field (field_of c) \<longrightarrow> holder g this f \<noteq> Some t)
                    \<longrightarrow> list_of g' this f = list_of g this f)))"
proof (rule impI)
  assume a: "well_formed g \<and> queryObject this < next_free g
    \<and> invoke_in_graph c this g = Inr (this', g')"
  then have wf: "well_formed g" and d: "queryObject this < next_free g"
    and r: "invoke_in_graph c this g = Inr (this', g')" by simp_all
  let ?doc = "Some (VRef (queryObject this))"
  let ?k = "last (path_of (field_of c))"
  have vb: "val_below (next_free g) (VRef (queryObject this))" using d by simp
  have common: "\<exists>t. holder g this (field_of c) = Some t \<and> t < next_free g
      \<and> (\<forall>a. a < next_free g \<and> a \<noteq> t \<longrightarrow> objects g' a = objects g a)
      \<and> (\<forall>a. a < next_free g \<longrightarrow> elements (objects g' a) = elements (objects g a)
            \<or> (is_list_field (field_of c) \<and> a = t))
      \<and> (\<forall>a k. a < next_free g \<and> (is_list_field (field_of c) \<or> k \<noteq> ?k) \<longrightarrow>
            map_of (own (objects g' a)) k = map_of (own (objects g a)) k)
      \<and> (is_list_field (field_of c) \<longrightarrow>
            (\<exists>xs ps b. objects g t = Arr xs ps \<and> objects g' t = Arr (xs @ [VRef b]) ps
               \<and> next_free g \<le> b))
      \<and> (\<not> is_list_field (field_of c) \<longrightarrow>
            elements (objects g' t) = elements (objects g t)
            \<and> (\<exists>n. payload c = JNum n
                 \<and> own (objects g' t) = AList.update ?k (VNum n) (own (objects g t))))"
    and same: "this' = this"
  proof -
    show "this' = this"
    proof (cases "is_list_field (field_of c)")
      case True
      from invoke_in_graph_appends[OF True] obtain arg where
        i: "invoke_in_graph c = appending (path_of (field_of c)) arg"
        and al: "\<And>g. allocates g (arg g)" by blast
      from appending_effect[OF wf d al r[unfolded i]] show ?thesis by blast
    next
      case False
      from invoke_in_graph_assigns[OF False] obtain n where
        i: "invoke_in_graph c = assigning (butlast (path_of (field_of c))) ?k (VNum n)" by blast
      from assigning_effect[OF wf d r[unfolded i]] show ?thesis by blast
    qed
    show "\<exists>t. holder g this (field_of c) = Some t \<and> t < next_free g
      \<and> (\<forall>a. a < next_free g \<and> a \<noteq> t \<longrightarrow> objects g' a = objects g a)
      \<and> (\<forall>a. a < next_free g \<longrightarrow> elements (objects g' a) = elements (objects g a)
            \<or> (is_list_field (field_of c) \<and> a = t))
      \<and> (\<forall>a k. a < next_free g \<and> (is_list_field (field_of c) \<or> k \<noteq> ?k) \<longrightarrow>
            map_of (own (objects g' a)) k = map_of (own (objects g a)) k)
      \<and> (is_list_field (field_of c) \<longrightarrow>
            (\<exists>xs ps b. objects g t = Arr xs ps \<and> objects g' t = Arr (xs @ [VRef b]) ps
               \<and> next_free g \<le> b))
      \<and> (\<not> is_list_field (field_of c) \<longrightarrow>
            elements (objects g' t) = elements (objects g t)
            \<and> (\<exists>n. payload c = JNum n
                 \<and> own (objects g' t) = AList.update ?k (VNum n) (own (objects g t))))"
    proof (cases "is_list_field (field_of c)")
      case True
      from invoke_in_graph_appends[OF True] obtain arg where
        i: "invoke_in_graph c = appending (path_of (field_of c)) arg"
        and al: "\<And>g. allocates g (arg g)" by blast
      from appending_effect[OF wf d al r[unfolded i]] obtain t xs ps b where
        w: "walk g ?doc (path_of (field_of c)) = Inr (Some (VRef t))"
        and tn: "t < next_free g" and o: "objects g t = Arr xs ps"
        and o': "objects g' t = Arr (xs @ [VRef b]) ps" and b: "next_free g \<le> b"
        and fr: "\<forall>a. a < next_free g \<and> a \<noteq> t \<longrightarrow> objects g' a = objects g a" by blast
      have h: "holder g this (field_of c) = Some t" using True w by (simp add: holder_def)
      have el: "elements (objects g' a) = elements (objects g a) \<or> a = t" if "a < next_free g" for a
        using that fr by auto
      have pr: "map_of (own (objects g' a)) k = map_of (own (objects g a)) k"
        if "a < next_free g" for a k
        using that fr o o' by (cases "a = t") simp_all
      from True h tn fr el pr o o' b show ?thesis by blast
    next
      case False
      from invoke_in_graph_assigns[OF False] obtain n where pn: "payload c = JNum n" and
        i: "invoke_in_graph c = assigning (butlast (path_of (field_of c))) ?k (VNum n)" by blast
      from assigning_effect[OF wf d r[unfolded i]] obtain t where
        w: "walk g ?doc (butlast (path_of (field_of c))) = Inr (Some (VRef t))"
        and tn: "t < next_free g"
        and ow: "own (objects g' t) = AList.update ?k (VNum n) (own (objects g t))"
        and el: "elements (objects g' t) = elements (objects g t)"
        and fr: "\<forall>a. a < next_free g \<and> a \<noteq> t \<longrightarrow> objects g' a = objects g a" by blast
      have h: "holder g this (field_of c) = Some t" using False w by (simp add: holder_def)
      have el': "elements (objects g' a) = elements (objects g a)" if "a < next_free g" for a
        using that fr el by (cases "a = t") simp_all
      have pr: "map_of (own (objects g' a)) k = map_of (own (objects g a)) k"
        if "a < next_free g" "k \<noteq> ?k" for a k
        using that fr ow by (cases "a = t") (simp_all add: map_of_update_eq)
      from False h tn fr el' pr ow el pn show ?thesis by blast
    qed
  qed
  from common obtain t where h: "holder g this (field_of c) = Some t" and tn: "t < next_free g"
    and fr: "\<forall>a. a < next_free g \<and> a \<noteq> t \<longrightarrow> objects g' a = objects g a"
    and el: "\<forall>a. a < next_free g \<longrightarrow> elements (objects g' a) = elements (objects g a)
            \<or> (is_list_field (field_of c) \<and> a = t)"
    and pr: "\<forall>a k. a < next_free g \<and> (is_list_field (field_of c) \<or> k \<noteq> ?k) \<longrightarrow>
            map_of (own (objects g' a)) k = map_of (own (objects g a)) k"
    and gl: "is_list_field (field_of c) \<longrightarrow>
            (\<exists>xs ps b. objects g t = Arr xs ps \<and> objects g' t = Arr (xs @ [VRef b]) ps
               \<and> next_free g \<le> b)"
    and gs: "\<not> is_list_field (field_of c) \<longrightarrow>
            elements (objects g' t) = elements (objects g t)
            \<and> (\<exists>n. payload c = JNum n
                 \<and> own (objects g' t) = AList.update ?k (VNum n) (own (objects g t)))"
    by blast
  have others: "field_value g' this f = field_value g this f
      \<and> holder g' this f = holder g this f
      \<and> (is_list_field f \<and> (is_list_field (field_of c) \<longrightarrow> holder g this f \<noteq> Some t)
           \<longrightarrow> list_of g' this f = list_of g this f)" if f: "f \<noteq> field_of c" for f
  proof -
    have keys: "map_of (own (objects g' a)) k = map_of (own (objects g a)) k"
      if "a < next_free g" "k \<in> set (path_of f)" for a k
    proof (cases "is_list_field (field_of c)")
      case True
      with pr that show ?thesis by blast
    next
      case False
      from other_field_key[OF f False] that(2) have "k \<noteq> ?k" by auto
      with pr that show ?thesis by blast
    qed
    have w1: "walk g' ?doc (path_of f) = walk g ?doc (path_of f)"
      by (rule walk_frame[OF wf _ vb]) (rule keys)
    have w2: "walk g' ?doc (if is_list_field f then path_of f else butlast (path_of f)) =
        walk g ?doc (if is_list_field f then path_of f else butlast (path_of f))"
      by (rule walk_frame[OF wf _ vb]) (use keys holder_path_subset[of f] in blast)
    have fv: "field_value g' this f = field_value g this f" using w1 by (simp add: field_value_def)
    have ho: "holder g' this f = holder g this f" using w2 by (simp add: holder_def)
    have "list_of g' this f = list_of g this f"
      if l: "is_list_field f \<and> (is_list_field (field_of c) \<longrightarrow> holder g this f \<noteq> Some t)"
    proof (cases "holder g this f")
      case None
      with ho show ?thesis by (simp add: list_of_def)
    next
      case (Some u)
      from Some l have wu: "walk g ?doc (path_of f) = Inr (Some (VRef u))"
        by (auto simp: holder_def split: sum.splits option.splits val.splits)
      from walk_below[OF wf vb wu] have un: "u < next_free g" by simp
      from el un l Some have "elements (objects g' u) = elements (objects g u)" by auto
      with Some ho show ?thesis by (simp add: list_of_def)
    qed
    with fv ho show ?thesis by blast
  qed
  from same h tn fr gl gs others
  show "this' = this
     \<and> (\<exists>t. holder g this (field_of c) = Some t \<and> t < next_free g
          \<and> (\<forall>a. a < next_free g \<and> a \<noteq> t \<longrightarrow> objects g' a = objects g a)
          \<and> (is_list_field (field_of c) \<longrightarrow>
               (\<exists>xs ps b. objects g t = Arr xs ps \<and> objects g' t = Arr (xs @ [VRef b]) ps
                  \<and> next_free g \<le> b))
          \<and> (\<not> is_list_field (field_of c) \<longrightarrow>
               elements (objects g' t) = elements (objects g t)
               \<and> (\<exists>n. payload c = JNum n
                    \<and> own (objects g' t) =
                        AList.update (last (path_of (field_of c))) (VNum n) (own (objects g t))))
          \<and> (\<forall>f. f \<noteq> field_of c \<longrightarrow>
               field_value g' this f = field_value g this f
               \<and> holder g' this f = holder g this f
               \<and> (is_list_field f \<and> (is_list_field (field_of c) \<longrightarrow> holder g this f \<noteq> Some t)
                    \<longrightarrow> list_of g' this f = list_of g this f)))"
    by blast
qed

theorem mutators_change_only_their_target_witness:
  "new_default_document empty_store =
   (VRef 5, \<lparr>objects = (\<lambda>_. Obj [])
        (0 := Arr [] [], 1 := Arr [] [],
         2 := Obj [(''should'', VRef 0), (''must'', VRef 1)],
         3 := Obj [(''bool'', VRef 2)],
         4 := Arr [] [],
         5 := Obj [(''query'', VRef 3), (''sort'', VRef 4)]),
      next_free = 6\<rparr>)
   \<and> well_formed \<lparr>objects = (\<lambda>_. Obj [])
        (0 := Arr [] [], 1 := Arr [] [],
         2 := Obj [(''should'', VRef 0), (''must'', VRef 1)],
         3 := Obj [(''bool'', VRef 2)],
         4 := Arr [] [],
         5 := Obj [(''query'', VRef 3), (''sort'', VRef 4)]),
      next_free = 6\<rparr>
   \<and> invoke_in_graph (ShouldTerm ''k'' ''v'') \<lparr>queryObject = 5\<rparr>
       \<lparr>objects = (\<lambda>_. Obj [])
        (0 := Arr [] [], 1 := Arr [] [],
         2 := Obj [(''should'', VRef 0), (''must'', VRef 1)],
         3 := Obj [(''bool'', VRef 2)],
         4 := Arr [] [],
         5 := Obj [(''query'', VRef 3), (''sort'', VRef 4)]),
      next_free = 6\<rparr> =
     Inr (\<lparr>queryObject = 5\<rparr>,
       \<lparr>objects = (\<lambda>_. Obj [])
        (0 := Arr [VRef 7] [], 1 := Arr [] [],
         2 := Obj [(''should'', VRef 0), (''must'', VRef 1)],
         3 := Obj [(''bool'', VRef 2)],
         4 := Arr [] [],
         5 := Obj [(''query'', VRef 3), (''sort'', VRef 4)],
         6 := Obj [(''k'', VStr ''v'')],
         7 := Obj [(''term'', VRef 6)]),
      next_free = 8\<rparr>)
   \<and> holder \<lparr>objects = (\<lambda>_. Obj [])
        (0 := Arr [] [], 1 := Arr [] [],
         2 := Obj [(''should'', VRef 0), (''must'', VRef 1)],
         3 := Obj [(''bool'', VRef 2)],
         4 := Arr [] [],
         5 := Obj [(''query'', VRef 3), (''sort'', VRef 4)]),
      next_free = 6\<rparr> \<lparr>queryObject = 5\<rparr> F_should = Some 0
   \<and> holder \<lparr>objects = (\<lambda>_. Obj [])
        (0 := Arr [] [], 1 := Arr [] [],
         2 := Obj [(''should'', VRef 0), (''must'', VRef 1)],
         3 := Obj [(''bool'', VRef 2)],
         4 := Arr [] [],
         5 := Obj [(''query'', VRef 3), (''sort'', VRef 4)]),
      next_free = 6\<rparr> \<lparr>queryObject = 5\<rparr> F_must = Some 1
   \<and> list_of \<lparr>objects = (\<lambda>_. Obj [])
        (0 := Arr [VRef 7] [], 1 := Arr [] [],
         2 := Obj [(''should'', VRef 0), (''must'', VRef 1)],
         3 := Obj [(''bool'', VRef 2)],
         4 := Arr [] [],
         5 := Obj [(''query'', VRef 3), (''sort'', VRef 4)],
         6 := Obj [(''k'', VStr ''v'')],
         7 := Obj [(''term'', VRef 6)]),
      next_free = 8\<rparr> \<lparr>queryObject = 5\<rparr> F_must =
     list_of \<lparr>objects = (\<lambda>_. Obj [])
        (0 := Arr [] [], 1 := Arr [] [],
         2 := Obj [(''should'', VRef 0), (''must'', VRef 1)],
         3 := Obj [(''bool'', VRef 2)],
         4 := Arr [] [],
         5 := Obj [(''query'', VRef 3), (''sort'', VRef 4)]),
      next_free = 6\<rparr> \<lparr>queryObject = 5\<rparr> F_must"
proof -
  let ?b = "\<lparr>queryObject = 5\<rparr>"
  let ?D = "\<lparr>objects = (\<lambda>_. Obj [])
        (0 := Arr [] [], 1 := Arr [] [],
         2 := Obj [(''should'', VRef 0), (''must'', VRef 1)],
         3 := Obj [(''bool'', VRef 2)],
         4 := Arr [] [],
         5 := Obj [(''query'', VRef 3), (''sort'', VRef 4)]),
      next_free = 6\<rparr>"
  let ?D' = "\<lparr>objects = (\<lambda>_. Obj [])
        (0 := Arr [VRef 7] [], 1 := Arr [] [],
         2 := Obj [(''should'', VRef 0), (''must'', VRef 1)],
         3 := Obj [(''bool'', VRef 2)],
         4 := Arr [] [],
         5 := Obj [(''query'', VRef 3), (''sort'', VRef 4)],
         6 := Obj [(''k'', VStr ''v'')],
         7 := Obj [(''term'', VRef 6)]),
      next_free = 8\<rparr>"
  let ?c = "ShouldTerm ''k'' ''v''"
  have wf: "well_formed ?D"
    by (simp add: well_formed_iff eval_nat_numeral less_Suc_eq)
  have d: "queryObject ?b < next_free ?D" by simp
  have i: "invoke_in_graph ?c ?b ?D = Inr (?b, ?D')"
    by (simp add: graph_defs fun_upd_twist)
  have hs: "holder ?D ?b F_should = Some 0" and hm: "holder ?D ?b F_must = Some 1"
    by (simp_all add: graph_defs)
  from mutators_change_only_their_target[of ?D ?b ?c ?b ?D', rule_format, OF conjI[OF wf conjI[OF d i]]]
  obtain t where t: "holder ?D ?b (field_of ?c) = Some t"
    and o: "\<forall>f. f \<noteq> field_of ?c \<longrightarrow>
               field_value ?D' ?b f = field_value ?D ?b f
               \<and> holder ?D' ?b f = holder ?D ?b f
               \<and> (is_list_field f \<and> (is_list_field (field_of ?c) \<longrightarrow> holder ?D ?b f \<noteq> Some t)
                    \<longrightarrow> list_of ?D' ?b f = list_of ?D ?b f)" by blast
  from t hs have "t = 0" by simp
  with o[rule_format, of F_must] hm have "list_of ?D' ?b F_must = list_of ?D ?b F_must" by simp
  with new_default_document_empty wf i hs hm show ?thesis by blast
qed

end
